theory Spec2Isabelle
  imports Main "HOL-Library.Multiset" "HOL-Library.Product_Lexorder"
begin

section \<open>Data model of convert.py\<close>

text \<open>
  The conversion script reads a ratings table, drops sparse users, renumbers users and
  items, sorts by timestamp, holds out one interaction per user and samples negatives.
  A table is a list of rows in row order; the rating column is never read by the script
  and is left out. Raw identifiers are of any type; after renumbering both identifier
  columns hold indices.
\<close>

datatype error = KeyError | IndexError | ValueError | AssertionError

record ('u, 'i) row =
  user_id :: 'u
  item_id :: 'i
  timestamp :: int

definition MIN_RATINGS :: nat where
  "MIN_RATINGS = 20"

text \<open>
  What the script takes from pandas, numpy and the interpreter without fixing it in its
  own text: the sort behind \<^verbatim>\<open>df.sort_values(by='timestamp')\<close> (default kind), the
  generator behind \<^verbatim>\<open>np.random.seed\<close> and \<^verbatim>\<open>np.random.choice\<close>
  (the state a seed gives, and one bounded draw), and the order in which a Python set is
  iterated by \<^verbatim>\<open>list(s)\<close>.
\<close>

record 'g platform =
  sort_by_timestamp :: "(nat, nat) row list \<Rightarrow> (nat, nat) row list"
  seed_state :: "int \<Rightarrow> 'g"
  randint :: "'g \<Rightarrow> nat \<Rightarrow> nat \<times> 'g"
  list_of_items :: "nat set \<Rightarrow> nat list"
  list_of_pairs :: "(nat \<times> nat) set \<Rightarrow> (nat \<times> nat) list"

text \<open>
  The documented contracts of these library operations: the sort returns the rows in
  ascending order of timestamp, a bounded draw is below its bound, and iterating a finite
  set gives each element once. \<open>sort_stable\<close> is the further property of a stable sort,
  which pandas documents for the kinds \<^verbatim>\<open>mergesort\<close> and \<^verbatim>\<open>stable\<close> only,
  not for the default kind.
\<close>

definition sort_ok :: "'g platform \<Rightarrow> bool" where
  "sort_ok P \<longleftrightarrow>
     (\<forall>xs. sorted (map timestamp (sort_by_timestamp P xs)) \<and>
           mset (sort_by_timestamp P xs) = mset xs)"

definition sort_stable :: "'g platform \<Rightarrow> bool" where
  "sort_stable P \<longleftrightarrow>
     (\<forall>xs t. filter (\<lambda>r. timestamp r = t) (sort_by_timestamp P xs) =
            filter (\<lambda>r. timestamp r = t) xs)"

definition randint_ok :: "'g platform \<Rightarrow> bool" where
  "randint_ok P \<longleftrightarrow> (\<forall>g n. 0 < n \<longrightarrow> fst (randint P g n) < n)"

definition items_iter_ok :: "'g platform \<Rightarrow> bool" where
  "items_iter_ok P \<longleftrightarrow>
     (\<forall>S. finite S \<longrightarrow> set (list_of_items P S) = S \<and> distinct (list_of_items P S))"

definition pairs_iter_ok :: "'g platform \<Rightarrow> bool" where
  "pairs_iter_ok P \<longleftrightarrow>
     (\<forall>S. finite S \<longrightarrow> set (list_of_pairs P S) = S \<and> distinct (list_of_pairs P S))"

section \<open>Loader and filter (lines 59-62)\<close>

definition group_len :: "('u, 'i) row list \<Rightarrow> 'u \<Rightarrow> nat" where
  "group_len df u = length (filter (\<lambda>r. user_id r = u) df)"

definition filter_min_ratings :: "('u, 'i) row list \<Rightarrow> ('u, 'i) row list" where
  "filter_min_ratings df = filter (\<lambda>r. MIN_RATINGS \<le> group_len df (user_id r)) df"

section \<open>Identifier remapping (lines 65-75)\<close>

text \<open>\<^verbatim>\<open>Series.unique()\<close>: the distinct values in order of first appearance.\<close>

fun unique :: "'a list \<Rightarrow> 'a list" where
  "unique [] = []"
| "unique (x # xs) = x # unique (filter (\<lambda>y. y \<noteq> x) xs)"

text \<open>\<^verbatim>\<open>{v: index for index, v in enumerate(values)}\<close>\<close>

definition index_map :: "'a list \<Rightarrow> ('a \<rightharpoonup> nat)" where
  "index_map vs = fold (\<lambda>(index, v) m. m(v \<mapsto> index)) (enumerate 0 vs) Map.empty"

definition dict_get :: "('k \<rightharpoonup> 'v) \<Rightarrow> 'k \<Rightarrow> error + 'v" where
  "dict_get m k = (case m k of None \<Rightarrow> Inl KeyError | Some v \<Rightarrow> Inr v)"

text \<open>\<^verbatim>\<open>Series.apply(f)\<close>, stopping at the first exception of \<open>f\<close>.\<close>

fun apply_col :: "('a \<Rightarrow> error + 'b) \<Rightarrow> 'a list \<Rightarrow> error + 'b list" where
  "apply_col f [] = Inr []"
| "apply_col f (x # xs) =
     (case f x of
        Inl e \<Rightarrow> Inl e
      | Inr y \<Rightarrow> (case apply_col f xs of Inl e \<Rightarrow> Inl e | Inr ys \<Rightarrow> Inr (y # ys)))"

definition set_user_column :: "('u, 'i) row list \<Rightarrow> 'v list \<Rightarrow> ('v, 'i) row list" where
  "set_user_column df col =
     map (\<lambda>(r, u). \<lparr>user_id = u, item_id = item_id r, timestamp = timestamp r\<rparr>) (zip df col)"

definition set_item_column :: "('u, 'i) row list \<Rightarrow> 'j list \<Rightarrow> ('u, 'j) row list" where
  "set_item_column df col =
     map (\<lambda>(r, i). \<lparr>user_id = user_id r, item_id = i, timestamp = timestamp r\<rparr>) (zip df col)"

definition original_users :: "('u, 'i) row list \<Rightarrow> 'u list" where
  "original_users df = unique (map user_id (filter_min_ratings df))"

definition original_items :: "('u, 'i) row list \<Rightarrow> 'i list" where
  "original_items df = unique (map item_id (filter_min_ratings df))"

definition remap :: "('u, 'i) row list \<Rightarrow> error + (nat, nat) row list" where
  "remap df =
     (let df1 = filter_min_ratings df;
          user_map = index_map (original_users df);
          item_map = index_map (original_items df)
      in case apply_col (dict_get user_map) (map user_id df1) of
           Inl e \<Rightarrow> Inl e
         | Inr ucol \<Rightarrow>
             (let df2 = set_user_column df1 ucol
              in case apply_col (dict_get item_map) (map item_id df2) of
                   Inl e \<Rightarrow> Inl e
                 | Inr icol \<Rightarrow> Inr (set_item_column df2 icol)))"

text \<open>
  \<^verbatim>\<open>Series.max()\<close>: the greatest value; on an empty column pandas returns NaN,
  which is \<open>None\<close> here and equal to no integer.
\<close>

definition series_max :: "nat list \<Rightarrow> nat option" where
  "series_max col = (case col of [] \<Rightarrow> None | x # xs \<Rightarrow> Some (fold max xs x))"

text \<open>\<^verbatim>\<open>assert col.max() == len(originals) - 1\<close>\<close>

definition assert_dense :: "nat list \<Rightarrow> 'a list \<Rightarrow> bool" where
  "assert_dense col originals \<longleftrightarrow>
     (case series_max col of
        None \<Rightarrow> False
      | Some m \<Rightarrow> int m = int (length originals) - 1)"

definition remap_checked :: "('u, 'i) row list \<Rightarrow> error + (nat, nat) row list" where
  "remap_checked df =
     (case remap df of
        Inl e \<Rightarrow> Inl e
      | Inr df2 \<Rightarrow>
          if \<not> assert_dense (map user_id df2) (original_users df) then Inl AssertionError
          else if \<not> assert_dense (map item_id df2) (original_items df) then Inl AssertionError
          else Inr df2)"

section \<open>Leave-one-out split and negative sampling (lines 79-110)\<close>

text \<open>The \<^verbatim>\<open>defaultdict(list)\<close>: every key not yet written holds the empty list.\<close>

definition append_item :: "(nat \<Rightarrow> nat list) \<Rightarrow> (nat, nat) row \<Rightarrow> (nat \<Rightarrow> nat list)" where
  "append_item m r = m(user_id r := m (user_id r) @ [item_id r])"

definition collect_items :: "(nat, nat) row list \<Rightarrow> (nat \<Rightarrow> nat list)" where
  "collect_items df = foldl append_item (\<lambda>_. []) df"

definition rating_pairs :: "(nat, nat) row list \<Rightarrow> (nat \<times> nat) set" where
  "rating_pairs df = set (zip (map user_id df) (map item_id df))"

record 'g split_state =
  user_to_items :: "nat \<Rightarrow> nat list"
  all_ratings :: "(nat \<times> nat) set"
  test_ratings :: "(nat \<times> nat) list"
  test_negs :: "nat list list"
  rng :: 'g

text \<open>\<open>k\<close> successive bounded draws from the generator, each below \<open>pop_size\<close>.\<close>

fun draws :: "'g platform \<Rightarrow> nat \<Rightarrow> nat \<Rightarrow> 'g \<Rightarrow> nat list \<times> 'g" where
  "draws P pop_size 0 g = ([], g)"
| "draws P pop_size (Suc k) g =
     (let (i, g1) = randint P g pop_size;
          (idx, g2) = draws P pop_size k g1
      in (i # idx, g2))"

text \<open>
  \<^verbatim>\<open>np.random.choice(a, n)\<close> with the defaults (with replacement, no weights):
  a negative size and a non-zero size on an empty population raise ValueError; otherwise
  \<open>n\<close> indices are drawn, each below the length of \<open>a\<close>, and looked up in \<open>a\<close>, which
  stays as it is between the draws. (With size 0 on an empty population numpy from 1.16 on
  returns the empty sample, as here; older versions raised.) The lookup is meaningful for
  a generator that keeps the contract \<open>randint_ok\<close>.
\<close>

definition choice :: "'g platform \<Rightarrow> 'g \<Rightarrow> nat list \<Rightarrow> int \<Rightarrow> error + (nat list \<times> 'g)" where
  "choice P g a n =
     (if n < 0 then Inl ValueError
      else if a = [] \<and> n \<noteq> 0 then Inl ValueError
      else (let (idx, g') = draws P (length a) (nat n) g
            in Inr (map (\<lambda>i. a ! i) idx, g')))"

text \<open>One pass of the loop body of lines 102-110 for \<open>user\<close>.\<close>

definition split_step ::
  "'g platform \<Rightarrow> nat \<Rightarrow> int \<Rightarrow> nat \<Rightarrow> 'g split_state \<Rightarrow> error + 'g split_state" where
  "split_step P n_items negatives user s =
     (case user_to_items s user of
        [] \<Rightarrow> Inl IndexError
      | x # xs \<Rightarrow>
          (let test_item = last (x # xs);
               items = butlast (x # xs)
           in if (user, test_item) \<notin> all_ratings s then Inl KeyError
              else
                (let all_negs = sort (list_of_items P ({0..<n_items} - set items))
                 in case choice P (rng s) all_negs negatives of
                      Inl e \<Rightarrow> Inl e
                    | Inr (negs, g') \<Rightarrow>
                        Inr \<lparr>user_to_items = (user_to_items s)(user := items),
                             all_ratings = all_ratings s - {(user, test_item)},
                             test_ratings = test_ratings s @ [(user, test_item)],
                             test_negs = test_negs s @ [negs],
                             rng = g'\<rparr>)))"

fun split_loop ::
  "'g platform \<Rightarrow> nat \<Rightarrow> int \<Rightarrow> nat list \<Rightarrow> 'g split_state \<Rightarrow> error + 'g split_state" where
  "split_loop P n_items negatives [] s = Inr s"
| "split_loop P n_items negatives (user # users) s =
     (case split_step P n_items negatives user s of
        Inl e \<Rightarrow> Inl e
      | Inr s' \<Rightarrow> split_loop P n_items negatives users s')"

text \<open>
  \<^verbatim>\<open>np.random.seed(seed)\<close>: replaces whatever state the global generator had;
  numpy refuses a seed outside \<open>0 .. 2^32 - 1\<close>.
\<close>

definition np_random_seed :: "'g platform \<Rightarrow> int \<Rightarrow> 'g \<Rightarrow> error + 'g" where
  "np_random_seed P seed g0 =
     (if 0 \<le> seed \<and> seed < 2 ^ 32 then Inr (seed_state P seed) else Inl ValueError)"

text \<open>
  Lines 59-79 on the loaded table \<open>df\<close>: filter, renumbering, the two assertions, and the
  sort by timestamp.
\<close>

definition sorted_table :: "'g platform \<Rightarrow> ('u, 'i) row list \<Rightarrow> error + (nat, nat) row list" where
  "sorted_table P df =
     (case remap_checked df of
        Inl e \<Rightarrow> Inl e
      | Inr df2 \<Rightarrow> Inr (sort_by_timestamp P df2))"

text \<open>
  \<^verbatim>\<open>main\<close> up to the end of the loop of line 102: \<open>g0\<close> is the state of the
  global generator when the process starts, \<open>df\<close> the table \<^verbatim>\<open>implicit_load\<close>
  returned, \<open>seed\<close> and \<open>negatives\<close> the command line's. The result is the exception that
  ended the run, or the state in which the loop ended.
\<close>

definition main_split ::
  "'g platform \<Rightarrow> 'g \<Rightarrow> ('u, 'i) row list \<Rightarrow> int \<Rightarrow> int \<Rightarrow> error + 'g split_state" where
  "main_split P g0 df seed negatives =
     (case np_random_seed P seed g0 of
        Inl e \<Rightarrow> Inl e
      | Inr g \<Rightarrow>
          (case sorted_table P df of
             Inl e \<Rightarrow> Inl e
           | Inr df3 \<Rightarrow>
               split_loop P (length (original_items df)) negatives
                 [0..<length (original_users df)]
                 \<lparr>user_to_items = collect_items df3,
                  all_ratings = rating_pairs df3,
                  test_ratings = [],
                  test_negs = [],
                  rng = g\<rparr>))"

section \<open>Writer (lines 113-127)\<close>

definition digit_char :: "nat \<Rightarrow> char" where
  "digit_char d = ''0123456789'' ! d"

fun str_nat :: "nat \<Rightarrow> string" where
  "str_nat n = (if n < 10 then [digit_char n] else str_nat (n div 10) @ [digit_char (n mod 10)])"

declare str_nat.simps [simp del]

fun join_tab :: "string list \<Rightarrow> string" where
  "join_tab [] = []"
| "join_tab [f] = f"
| "join_tab (f # fs) = f @ [CHR 0x09] @ join_tab fs"

text \<open>
  \<^verbatim>\<open>DataFrame.to_csv(index=False, header=False, sep='\t')\<close> on a table of integers:
  one line per row, the fields in decimal, a tab between fields, a newline after each row.
\<close>

definition to_csv :: "nat list list \<Rightarrow> string" where
  "to_csv rows = concat (map (\<lambda>r. join_tab (map str_nat r) @ [CHR 0x0A]) rows)"

text \<open>\<^verbatim>\<open>pd.DataFrame(pairs)\<close> followed by \<^verbatim>\<open>df['fake_rating'] = 1\<close>.\<close>

definition with_fake_rating :: "(nat \<times> nat) list \<Rightarrow> nat list list" where
  "with_fake_rating pairs = map (\<lambda>(u, i). [u, i, 1]) pairs"

record files =
  train_ratings_csv :: string
  test_ratings_csv :: string
  test_negative_csv :: string

definition train_table :: "'g platform \<Rightarrow> 'g split_state \<Rightarrow> nat list list" where
  "train_table P s = with_fake_rating (list_of_pairs P (all_ratings s))"

definition test_table :: "'g split_state \<Rightarrow> nat list list" where
  "test_table s = with_fake_rating (test_ratings s)"

definition write_files :: "'g platform \<Rightarrow> 'g split_state \<Rightarrow> files" where
  "write_files P s =
     \<lparr>train_ratings_csv = to_csv (train_table P s),
      test_ratings_csv = to_csv (test_table s),
      test_negative_csv = to_csv (test_negs s)\<rparr>"

text \<open>The whole run: the exception that ended it, or the contents of the three files.\<close>

definition main :: "'g platform \<Rightarrow> 'g \<Rightarrow> ('u, 'i) row list \<Rightarrow> int \<Rightarrow> int \<Rightarrow> error + files" where
  "main P g0 df seed negatives =
     (case main_split P g0 df seed negatives of
        Inl e \<Rightarrow> Inl e
      | Inr s \<Rightarrow> Inr (write_files P s))"

section \<open>Reading a written file back\<close>

text \<open>
  Not part of the script: what a reader of the files does. A file is cut at the newlines,
  each line at the tabs, and each field is read as a decimal number; an empty line is a row
  without fields.
\<close>

definition digit_val :: "char \<Rightarrow> nat" where
  "digit_val c = of_char c - 48"

definition nat_of_str :: "string \<Rightarrow> nat" where
  "nat_of_str s = foldl (\<lambda>a c. 10 * a + digit_val c) 0 s"

fun split_char :: "char \<Rightarrow> string \<Rightarrow> string list" where
  "split_char c [] = [[]]"
| "split_char c (x # xs) =
     (if x = c then [] # split_char c xs
      else (case split_char c xs of
              [] \<Rightarrow> [[x]]
            | f # fs \<Rightarrow> (x # f) # fs))"

definition parse_line :: "string \<Rightarrow> nat list" where
  "parse_line l = (if l = [] then [] else map nat_of_str (split_char (CHR 0x09) l))"

definition parse_csv :: "string \<Rightarrow> nat list list" where
  "parse_csv s = map parse_line (butlast (split_char (CHR 0x0A) s))"

section \<open>Closed forms of the stages\<close>

text \<open>
  The definitions of this section are not part of the script: they say, stage by stage,
  what the script's functions above compute, and the lemmas below prove that they do.
\<close>

text \<open>The index a raw identifier gets, and the table after renumbering.\<close>

definition user_index :: "('u, 'i) row list \<Rightarrow> 'u \<Rightarrow> nat" where
  "user_index df u = the (index_map (original_users df) u)"

definition item_index :: "('u, 'i) row list \<Rightarrow> 'i \<Rightarrow> nat" where
  "item_index df i = the (index_map (original_items df) i)"

definition remapped :: "('u, 'i) row list \<Rightarrow> (nat, nat) row list" where
  "remapped df =
     map (\<lambda>r. \<lparr>user_id = user_index df (user_id r), item_id = item_index df (item_id r),
               timestamp = timestamp r\<rparr>) (filter_min_ratings df)"

text \<open>
  The candidate negatives of a user with training history \<open>items\<close> (lines 106-107), the
  generator state before user \<open>u\<close> draws when the users before drew \<open>k\<close> each from
  their pools, the row then sampled for \<open>u\<close>, and the state of the loop after \<open>k\<close> users
  when it started from histories \<open>h\<close>, pairs \<open>A\<close> and generator state \<open>g\<close>.
\<close>

definition candidates :: "'g platform \<Rightarrow> nat \<Rightarrow> nat list \<Rightarrow> nat list" where
  "candidates P n_items items = sort (list_of_items P ({0..<n_items} - set items))"

fun rng_before :: "'g platform \<Rightarrow> (nat \<Rightarrow> nat list) \<Rightarrow> nat \<Rightarrow> 'g \<Rightarrow> nat \<Rightarrow> 'g" where
  "rng_before P pool k g 0 = g"
| "rng_before P pool k g (Suc u) = snd (draws P (length (pool u)) k (rng_before P pool k g u))"

definition negs_of :: "'g platform \<Rightarrow> (nat \<Rightarrow> nat list) \<Rightarrow> nat \<Rightarrow> 'g \<Rightarrow> nat \<Rightarrow> nat list" where
  "negs_of P pool k g u =
     map (\<lambda>i. pool u ! i) (fst (draws P (length (pool u)) k (rng_before P pool k g u)))"

definition step_ok :: "'g platform \<Rightarrow> nat \<Rightarrow> int \<Rightarrow> (nat \<Rightarrow> nat list) \<Rightarrow> nat \<Rightarrow> bool" where
  "step_ok P n_items negatives h u \<longleftrightarrow>
     0 \<le> negatives \<and> (candidates P n_items (butlast (h u)) = [] \<longrightarrow> negatives = 0)"

definition split_after ::
  "'g platform \<Rightarrow> nat \<Rightarrow> int \<Rightarrow> (nat \<Rightarrow> nat list) \<Rightarrow> (nat \<times> nat) set \<Rightarrow> 'g \<Rightarrow> nat \<Rightarrow> 'g split_state" where
  "split_after P n_items negatives h A g k =
     \<lparr>user_to_items = (\<lambda>u. if u < k then butlast (h u) else h u),
      all_ratings = A - (\<lambda>u. (u, last (h u))) ` {0..<k},
      test_ratings = map (\<lambda>u. (u, last (h u))) [0..<k],
      test_negs = map (negs_of P (\<lambda>u. candidates P n_items (butlast (h u))) (nat negatives) g) [0..<k],
      rng = rng_before P (\<lambda>u. candidates P n_items (butlast (h u))) (nat negatives) g k\<rparr>"

text \<open>
  The time-sorted table, the rows and items of one user in it, and the state in which the
  loop of line 102 ends when no sampling call raises.
\<close>

definition table :: "'g platform \<Rightarrow> ('u, 'i) row list \<Rightarrow> (nat, nat) row list" where
  "table P df = sort_by_timestamp P (remapped df)"

definition user_rows :: "'g platform \<Rightarrow> ('u, 'i) row list \<Rightarrow> nat \<Rightarrow> (nat, nat) row list" where
  "user_rows P df u = filter (\<lambda>r. user_id r = u) (table P df)"

definition history :: "'g platform \<Rightarrow> ('u, 'i) row list \<Rightarrow> nat \<Rightarrow> nat list" where
  "history P df u = map item_id (user_rows P df u)"

definition final_state :: "'g platform \<Rightarrow> ('u, 'i) row list \<Rightarrow> int \<Rightarrow> int \<Rightarrow> 'g split_state" where
  "final_state P df seed negatives =
     split_after P (length (original_items df)) negatives (history P df)
       (rating_pairs (table P df)) (seed_state P seed) (length (original_users df))"

definition sampler_ok :: "'g platform \<Rightarrow> ('u, 'i) row list \<Rightarrow> int \<Rightarrow> bool" where
  "sampler_ok P df negatives \<longleftrightarrow>
     (\<forall>u<length (original_users df).
        step_ok P (length (original_items df)) negatives (history P df) u)"

text \<open>
  The candidate pool of user \<open>u\<close> read off a state of the loop: the item indices outside
  the user's history, ascending.
\<close>

definition pool_of :: "nat \<Rightarrow> 'g split_state \<Rightarrow> nat \<Rightarrow> nat list" where
  "pool_of n_items s u = sorted_list_of_set ({0..<n_items} - set (user_to_items s u))"

text \<open>The state of the generator after one draw below \<open>n\<close>.\<close>

definition after_draw :: "'g platform \<Rightarrow> nat \<Rightarrow> 'g \<Rightarrow> 'g" where
  "after_draw P n g = snd (randint P g n)"

text \<open>
  In the words of the specification: for a user, the row that is chronologically last,
  ties of the timestamp broken by the original row order, is the last row of the
  (unsorted) table among the user's rows with the greatest timestamp.
\<close>

definition latest_row :: "(nat, nat) row list \<Rightarrow> nat \<Rightarrow> (nat, nat) row" where
  "latest_row df u =
     (let rows = filter (\<lambda>r. user_id r = u) df
      in last (filter (\<lambda>r. timestamp r = Max (timestamp ` set rows)) rows))"

section \<open>The default sort of the library\<close>

text \<open>
  Not part of the script: the sort that line 79 runs when no kind is given. pandas sorts
  one column by numpy's \<^verbatim>\<open>argsort\<close> with kind \<^verbatim>\<open>quicksort\<close>, which for
  64-bit integers is the introsort of \<^verbatim>\<open>npysort/quicksort.cpp\<close>
  (\<^verbatim>\<open>aquicksort\<close>): quicksort with a median-of-three pivot on ranges of more than
  17 positions, insertion sort on the others. It is modelled here from numpy's source, in
  its scalar form, to run the script on a concrete table with the sort it really uses.
  (For some processors numpy replaces it by a vectorised sort, which is not stable either
  and is not modelled.)
\<close>

text \<open>\<^verbatim>\<open>INTP_SWAP\<close> on the array of row positions.\<close>

definition intp_swap :: "nat list \<Rightarrow> nat \<Rightarrow> nat \<Rightarrow> nat list" where
  "intp_swap t i j = t[i := t ! j, j := t ! i]"

text \<open>\<^verbatim>\<open>npy_get_msb\<close>: the position of the highest set bit.\<close>

function npy_get_msb :: "nat \<Rightarrow> nat" where
  "npy_get_msb n = (if n < 2 then 0 else Suc (npy_get_msb (n div 2)))"
  by pat_completeness auto

termination
  by (relation "measure id") auto

declare npy_get_msb.simps [simp del]

text \<open>
  The two inner scans of the partition, \<^verbatim>\<open>do ++pi; while (v[*pi] < vp)\<close> and
  \<^verbatim>\<open>do --pj; while (vp < v[*pj])\<close>, entered after the first step. In C the
  median-of-three leaves a sentinel at either end, so neither scan leaves the range; the
  bounds are written out here to make the functions total.
\<close>

function scan_up :: "int list \<Rightarrow> nat list \<Rightarrow> int \<Rightarrow> nat \<Rightarrow> nat" where
  "scan_up v t vp i =
     (if i < length t \<and> v ! (t ! i) < vp then scan_up v t vp (Suc i) else i)"
  by pat_completeness auto

termination
  by (relation "measure (\<lambda>(v, t, vp, i). length t - i)") auto

declare scan_up.simps [simp del]

function scan_down :: "int list \<Rightarrow> nat list \<Rightarrow> int \<Rightarrow> nat \<Rightarrow> nat" where
  "scan_down v t vp j =
     (if 0 < j \<and> vp < v ! (t ! j) then scan_down v t vp (j - 1) else j)"
  by pat_completeness auto

termination
  by (relation "measure (\<lambda>(v, t, vp, j). j)") auto

declare scan_down.simps [simp del]

text \<open>The \<^verbatim>\<open>for (;;)\<close> loop of the partition, with fuel.\<close>

fun hoare_loop :: "nat \<Rightarrow> int list \<Rightarrow> int \<Rightarrow> nat list \<Rightarrow> nat \<Rightarrow> nat \<Rightarrow> (nat list \<times> nat) option" where
  "hoare_loop 0 v vp t i j = None"
| "hoare_loop (Suc fuel) v vp t i j =
     (let i' = scan_up v t vp (Suc i);
          j' = scan_down v t vp (j - 1)
      in if j' \<le> i' then Some (t, i')
         else hoare_loop fuel v vp (intp_swap t i' j') i' j')"

text \<open>
  One partition of the range \<open>pl .. pr\<close>: median of three, the pivot parked at
  \<open>pr - 1\<close>, the scans, the pivot put in place. The result is the array and the
  pivot's position.
\<close>

definition quicksort_partition :: "int list \<Rightarrow> nat list \<Rightarrow> nat \<Rightarrow> nat \<Rightarrow> (nat list \<times> nat) option" where
  "quicksort_partition v t pl pr =
     (let pm = pl + (pr - pl) div 2;
          t1 = (if v ! (t ! pm) < v ! (t ! pl) then intp_swap t pm pl else t);
          t2 = (if v ! (t1 ! pr) < v ! (t1 ! pm) then intp_swap t1 pr pm else t1);
          t3 = (if v ! (t2 ! pm) < v ! (t2 ! pl) then intp_swap t2 pm pl else t2);
          vp = v ! (t3 ! pm);
          t4 = intp_swap t3 pm (pr - 1)
      in case hoare_loop (length t) v vp t4 pl (pr - 1) of
           None \<Rightarrow> None
         | Some (t5, i) \<Rightarrow> Some (intp_swap t5 i (pr - 1), i))"

text \<open>The insertion sort that finishes a range of at most 17 positions.\<close>

function ins_shift :: "int list \<Rightarrow> nat list \<Rightarrow> nat \<Rightarrow> nat \<Rightarrow> int \<Rightarrow> nat \<Rightarrow> nat list" where
  "ins_shift v t pl vi vp j =
     (if pl < j \<and> vp < v ! (t ! (j - 1))
      then ins_shift v (t[j := t ! (j - 1)]) pl vi vp (j - 1)
      else t[j := vi])"
  by pat_completeness auto

termination
  by (relation "measure (\<lambda>(v, t, pl, vi, vp, j). j)") auto

declare ins_shift.simps [simp del]

function insertion_sort :: "int list \<Rightarrow> nat list \<Rightarrow> nat \<Rightarrow> nat \<Rightarrow> nat \<Rightarrow> nat list" where
  "insertion_sort v t pl pr i =
     (if i \<le> pr
      then insertion_sort v (ins_shift v t pl (t ! i) (v ! (t ! i)) i) pl pr (Suc i)
      else t)"
  by pat_completeness auto

termination
  by (relation "measure (\<lambda>(v, t, pl, pr, i). Suc pr - i)") auto

declare insertion_sort.simps [simp del]

definition SMALL_QUICKSORT :: nat where
  "SMALL_QUICKSORT = 16"

text \<open>
  The outer loop with its stack of postponed ranges, each with the depth left for it:
  \<open>fresh\<close> says that the range was just taken up (at the start or from the stack), where the
  depth limit is tested. When the limit is used up numpy sorts the range with heapsort,
  which is not modelled: the result is then \<open>None\<close>, as when the fuel runs out.
\<close>

fun aquicksort ::
  "nat \<Rightarrow> bool \<Rightarrow> int list \<Rightarrow> nat list \<Rightarrow> nat \<Rightarrow> nat \<Rightarrow> (nat \<times> nat \<times> int) list \<Rightarrow> int
    \<Rightarrow> nat list option" where
  "aquicksort 0 fresh v t pl pr stack cdepth = None"
| "aquicksort (Suc fuel) fresh v t pl pr stack cdepth =
     (if fresh \<and> cdepth < 0 then None
      else if SMALL_QUICKSORT < pr - pl then
        (case quicksort_partition v t pl pr of
           None \<Rightarrow> None
         | Some (t', i) \<Rightarrow>
             if i - pl < pr - i
             then aquicksort fuel False v t' pl (i - 1) ((i + 1, pr, cdepth - 1) # stack) (cdepth - 1)
             else aquicksort fuel False v t' (i + 1) pr ((pl, i - 1, cdepth - 1) # stack) (cdepth - 1))
      else
        (let t' = insertion_sort v t pl pr (Suc pl)
         in case stack of
              [] \<Rightarrow> Some t'
            | (pl', pr', d) # stack' \<Rightarrow> aquicksort fuel True v t' pl' pr' stack' d))"

text \<open>\<^verbatim>\<open>values.argsort(kind='quicksort')\<close>: the row positions in sorted order.\<close>

definition argsort_quicksort :: "int list \<Rightarrow> nat list option" where
  "argsort_quicksort v =
     aquicksort (Suc (2 * length v)) True v [0..<length v] 0 (length v - 1) []
       (2 * int (npy_get_msb (length v)))"

text \<open>
  \<^verbatim>\<open>df.sort_values(by='timestamp')\<close>: the rows taken in the order of the positions.
  Where the model of the sort gives no result the table is left as it is.
\<close>

definition sort_values_quicksort :: "(nat, nat) row list \<Rightarrow> (nat, nat) row list" where
  "sort_values_quicksort df =
     (case argsort_quicksort (map timestamp df) of
        None \<Rightarrow> df
      | Some indexer \<Rightarrow> map (\<lambda>i. df ! i) indexer)"

section \<open>A concrete platform and concrete tables\<close>

text \<open>
  A platform on which the definitions can be run: a stable sort, a small congruential
  generator, sets of items iterated downwards and sets of pairs iterated upwards. The
  second platform differs only in its sort, which is the default sort of the library.
\<close>

definition demo :: "nat platform" where
  "demo = \<lparr>sort_by_timestamp = sort_key timestamp,
          seed_state = nat,
          randint = (\<lambda>g n. ((g div 4) mod n, (5 * g + 3) mod 64)),
          list_of_items = (\<lambda>S. rev (sorted_list_of_set S)),
          list_of_pairs = sorted_list_of_set\<rparr>"

definition demo_numpy :: "nat platform" where
  "demo_numpy = demo\<lparr>sort_by_timestamp := sort_values_quicksort\<rparr>"

text \<open>
  User 5 has one rating, user 7 twenty ratings at twenty different times, user 9 twenty
  ratings all at time 7.
\<close>

definition sparse :: "(int, int) row list" where
  "sparse = [\<lparr>user_id = 5, item_id = 100, timestamp = 3\<rparr>]"

definition toy :: "(int, int) row list" where
  "toy = sparse @
         map (\<lambda>k. \<lparr>user_id = 7, item_id = 10 * int k, timestamp = int k\<rparr>) [0..<20] @
         map (\<lambda>k. \<lparr>user_id = 9, item_id = 10 * int k + 20, timestamp = 7\<rparr>) [0..<20]"

text \<open>
  User 7 rates item 0 twice, first and last; in the second table there is a user 9 whose
  items differ from those of user 7.
\<close>

definition toy_one :: "(int, int) row list" where
  "toy_one = map (\<lambda>k. \<lparr>user_id = 7, item_id = 10 * int (k mod 19), timestamp = int k\<rparr>) [0..<20]"

definition toy_dup :: "(int, int) row list" where
  "toy_dup = toy_one @
         map (\<lambda>k. \<lparr>user_id = 9, item_id = 10 * int k + 20, timestamp = 100 + int k\<rparr>) [0..<20]"

section \<open>Lemmas: filter and renumbering\<close>

lemma set_unique: "set (unique xs) = set xs"
  by (induction xs rule: unique.induct) auto

lemma distinct_unique: "distinct (unique xs)"
  by (induction xs rule: unique.induct) (auto simp: set_unique)

lemma unique_Nil_iff: "unique xs = [] \<longleftrightarrow> xs = []"
  by (cases xs) auto

lemma fold_enumerate_notin:
  "x \<notin> set vs \<Longrightarrow> fold (\<lambda>(index, v) m. m(v \<mapsto> index)) (enumerate n vs) m x = m x"
  by (induction vs arbitrary: n m) auto

lemma fold_enumerate_nth:
  "distinct vs \<Longrightarrow> i < length vs \<Longrightarrow>
   fold (\<lambda>(index, v) m. m(v \<mapsto> index)) (enumerate n vs) m (vs ! i) = Some (n + i)"
proof (induction vs arbitrary: n m i)
  case Nil
  then show ?case by simp
next
  case (Cons v vs)
  show ?case
  proof (cases i)
    case 0
    from Cons.prems have "v \<notin> set vs" by simp
    from fold_enumerate_notin [OF this, of "Suc n" "m(v \<mapsto> n)"] 0 show ?thesis by (simp del: fun_upd_apply) simp
  next
    case (Suc j)
    with Cons.prems Cons.IH [of j "Suc n" "m(v \<mapsto> n)"] show ?thesis by simp
  qed
qed

lemma index_map_nth: "distinct vs \<Longrightarrow> i < length vs \<Longrightarrow> index_map vs (vs ! i) = Some i"
  using fold_enumerate_nth [of vs i 0 Map.empty] by (simp add: index_map_def)

lemma index_map_notin: "x \<notin> set vs \<Longrightarrow> index_map vs x = None"
  by (simp add: index_map_def fold_enumerate_notin)

lemma index_map_Some:
  assumes "distinct vs" "index_map vs x = Some i"
  shows "i < length vs \<and> vs ! i = x"
proof -
  from assms(2) have "x \<in> set vs" using index_map_notin [of x vs] by auto
  then obtain j where j: "j < length vs" "vs ! j = x" by (auto simp: in_set_conv_nth)
  with assms(1) have "index_map vs x = Some j" using index_map_nth [of vs j] by simp
  with assms(2) j show ?thesis by simp
qed

lemma index_map_in: 
  assumes "distinct vs" "x \<in> set vs"
  shows "\<exists>i. index_map vs x = Some i \<and> i < length vs \<and> vs ! i = x"
proof -
  from assms(2) obtain j where j: "j < length vs" "vs ! j = x" by (auto simp: in_set_conv_nth)
  with assms(1) show ?thesis using index_map_nth [of vs j] by auto
qed

lemma apply_col_map:
  "(\<And>x. x \<in> set xs \<Longrightarrow> f x = Inr (h x)) \<Longrightarrow> apply_col f xs = Inr (map h xs)"
  by (induction xs) auto

lemma distinct_original_users: "distinct (original_users df)"
  by (simp add: original_users_def distinct_unique)

lemma distinct_original_items: "distinct (original_items df)"
  by (simp add: original_items_def distinct_unique)

lemma set_original_users: "set (original_users df) = user_id ` set (filter_min_ratings df)"
  by (simp add: original_users_def set_unique)

lemma set_original_items: "set (original_items df) = item_id ` set (filter_min_ratings df)"
  by (simp add: original_items_def set_unique)

lemma user_index_nth: "i < length (original_users df) \<Longrightarrow> user_index df (original_users df ! i) = i"
  by (simp add: user_index_def index_map_nth distinct_original_users)

lemma item_index_nth: "i < length (original_items df) \<Longrightarrow> item_index df (original_items df ! i) = i"
  by (simp add: item_index_def index_map_nth distinct_original_items)

lemma user_index_in:
  assumes "u \<in> set (original_users df)"
  shows "index_map (original_users df) u = Some (user_index df u)"
    and "user_index df u < length (original_users df)"
    and "original_users df ! user_index df u = u"
  using index_map_in [OF distinct_original_users assms] by (auto simp: user_index_def)

lemma item_index_in:
  assumes "i \<in> set (original_items df)"
  shows "index_map (original_items df) i = Some (item_index df i)"
    and "item_index df i < length (original_items df)"
    and "original_items df ! item_index df i = i"
  using index_map_in [OF distinct_original_items assms] by (auto simp: item_index_def)

lemma map2_same: "map2 f xs (map g xs) = map (\<lambda>x. f x (g x)) xs"
  by (induction xs) auto

lemma map2_same_map: "map2 f (map h xs) (map g xs) = map (\<lambda>x. f (h x) (g x)) xs"
  by (induction xs) auto

lemma remap_eq: "remap df = Inr (remapped df)"
proof -
  let ?df1 = "filter_min_ratings df"
  have u: "apply_col (dict_get (index_map (original_users df))) (map user_id ?df1)
           = Inr (map (user_index df) (map user_id ?df1))"
    by (rule apply_col_map) (auto simp: dict_get_def set_original_users user_index_in(1))
  let ?df2 = "set_user_column ?df1 (map (user_index df) (map user_id ?df1))"
  have df2: "?df2 = map (\<lambda>r. \<lparr>user_id = user_index df (user_id r), item_id = item_id r,
               timestamp = timestamp r\<rparr>) ?df1"
    by (simp add: set_user_column_def map2_same map2_same_map o_def)
  have i: "apply_col (dict_get (index_map (original_items df))) (map item_id ?df2)
           = Inr (map (item_index df) (map item_id ?df2))"
    unfolding df2
    by (rule apply_col_map) (auto simp: dict_get_def set_original_items item_index_in(1))
  have "set_item_column ?df2 (map (item_index df) (map item_id ?df2)) = remapped df"
    unfolding df2 by (simp add: set_item_column_def map2_same map2_same_map o_def remapped_def)
  with u i show ?thesis by (simp add: remap_def Let_def)
qed

lemma user_col_remapped:
  "map user_id (remapped df) = map (user_index df) (map user_id (filter_min_ratings df))"
  by (simp add: remapped_def o_def)

lemma item_col_remapped:
  "map item_id (remapped df) = map (item_index df) (map item_id (filter_min_ratings df))"
  by (simp add: remapped_def o_def)

lemma image_index_dense:
  assumes "\<And>i. i < length vs \<Longrightarrow> f (vs ! i) = i"
  shows "f ` set vs = {0..<length vs}"
proof
  show "f ` set vs \<subseteq> {0..<length vs}" using assms by (auto simp: in_set_conv_nth)
  show "{0..<length vs} \<subseteq> f ` set vs"
  proof
    fix i assume "i \<in> {0..<length vs}"
    then have "i < length vs" by simp
    then have "f (vs ! i) = i" "vs ! i \<in> set vs" using assms by auto
    then show "i \<in> f ` set vs" by force
  qed
qed

lemma set_user_col_remapped: "set (map user_id (remapped df)) = {0..<length (original_users df)}"
proof -
  have "set (map user_id (remapped df)) = user_index df ` set (original_users df)"
    by (simp add: user_col_remapped set_original_users image_image)
  then show ?thesis by (simp add: image_index_dense user_index_nth)
qed

lemma set_item_col_remapped: "set (map item_id (remapped df)) = {0..<length (original_items df)}"
proof -
  have "set (map item_id (remapped df)) = item_index df ` set (original_items df)"
    by (simp add: item_col_remapped set_original_items image_image)
  then show ?thesis by (simp add: image_index_dense item_index_nth)
qed

lemma series_max_Max: "col \<noteq> [] \<Longrightarrow> series_max col = Some (Max (set col))"
  by (cases col) (simp_all add: series_max_def Max.set_eq_fold del: set_simps)

lemma series_max_dense:
  assumes "set col = {0..<n}" "col \<noteq> []"
  shows "series_max col = Some (n - 1)" and "0 < n"
proof -
  from assms show n: "0 < n" by (cases n) auto
  then have "Max {0..<n} = n - 1" by (intro Max_eqI) auto
  with assms show "series_max col = Some (n - 1)" by (simp add: series_max_Max)
qed

lemma assert_dense_ok: "set col = {0..<length vs} \<Longrightarrow> col \<noteq> [] \<Longrightarrow> assert_dense col vs"
  using series_max_dense [of col "length vs"] by (cases vs) (auto simp: assert_dense_def)

lemma remapped_Nil_iff: "remapped df = [] \<longleftrightarrow> filter_min_ratings df = []"
  by (simp add: remapped_def)

lemma remap_checked_nonempty:
  "filter_min_ratings df \<noteq> [] \<Longrightarrow> remap_checked df = Inr (remapped df)"
  by (simp add: remap_checked_def remap_eq assert_dense_ok set_user_col_remapped
      set_item_col_remapped remapped_Nil_iff del: set_map)

lemma remap_checked_empty:
  "filter_min_ratings df = [] \<Longrightarrow> remap_checked df = Inl AssertionError"
  by (simp add: remap_checked_def remap_eq remapped_def assert_dense_def series_max_def)

lemma remap_checked_Inr: "remap_checked df = Inr df2 \<Longrightarrow> filter_min_ratings df \<noteq> [] \<and> df2 = remapped df"
  using remap_checked_empty [of df] remap_checked_nonempty [of df] by (cases "filter_min_ratings df = []") auto

section \<open>Lemmas: the split loop\<close>

lemma split_after_0:
  "split_after P n_items negatives h A g 0 =
     \<lparr>user_to_items = h, all_ratings = A, test_ratings = [], test_negs = [], rng = g\<rparr>"
  by (simp add: split_after_def)

lemma choice_eq:
  "choice P g a n =
     (if 0 \<le> n \<and> (a = [] \<longrightarrow> n = 0)
      then Inr (map (\<lambda>i. a ! i) (fst (draws P (length a) (nat n) g)), snd (draws P (length a) (nat n) g))
      else Inl ValueError)"
  by (auto simp: choice_def split: prod.splits)

lemma split_step_after:
  assumes "h k \<noteq> []" "(k, last (h k)) \<in> A"
  shows "split_step P n_items negatives k (split_after P n_items negatives h A g k) =
           (if step_ok P n_items negatives h k
            then Inr (split_after P n_items negatives h A g (Suc k))
            else Inl ValueError)"
proof -
  let ?s = "split_after P n_items negatives h A g k"
  from assms(1) obtain x xs where hk: "h k = x # xs" by (cases "h k") auto
  have u: "user_to_items ?s k = x # xs" by (simp add: split_after_def hk)
  have mem: "(k, last (x # xs)) \<in> all_ratings ?s"
    using assms(2) unfolding hk by (auto simp: split_after_def)
  have f: "(user_to_items ?s)(k := butlast (x # xs)) = (\<lambda>u. if u < Suc k then butlast (h u) else h u)"
    by (rule ext) (auto simp: split_after_def hk less_Suc_eq)
  have a: "all_ratings ?s - {(k, last (x # xs))} = A - (\<lambda>u. (u, last (h u))) ` {0..<Suc k}"
    by (auto simp: split_after_def hk less_Suc_eq)
  have c: "sort (list_of_items P ({0..<n_items} - set (butlast (x # xs)))) = candidates P n_items (butlast (h k))"
    by (simp add: candidates_def hk)
  show ?thesis
    unfolding split_step_def u list.case Let_def c
    using mem
    apply (simp only: if_False not_not choice_eq)
    apply (simp add: step_ok_def f a del: butlast.simps last.simps)
    apply (simp add: split_after_def negs_of_def hk)
    done
qed

lemma split_loop_append:
  "split_loop P n_items negatives (us @ vs) s =
     (case split_loop P n_items negatives us s of
        Inl e \<Rightarrow> Inl e
      | Inr s' \<Rightarrow> split_loop P n_items negatives vs s')"
  by (induction us arbitrary: s) (auto split: sum.splits)

lemma split_loop_upt:
  assumes "\<And>u. u < k \<Longrightarrow> h u \<noteq> [] \<and> (u, last (h u)) \<in> A"
  shows "split_loop P n_items negatives [0..<k]
           \<lparr>user_to_items = h, all_ratings = A, test_ratings = [], test_negs = [], rng = g\<rparr> =
         (if \<forall>u<k. step_ok P n_items negatives h u
          then Inr (split_after P n_items negatives h A g k)
          else Inl ValueError)"
  using assms
proof (induction k)
  case 0
  then show ?case by (simp add: split_after_0)
next
  case (Suc k)
  have ih: "split_loop P n_items negatives [0..<k]
           \<lparr>user_to_items = h, all_ratings = A, test_ratings = [], test_negs = [], rng = g\<rparr> =
         (if \<forall>u<k. step_ok P n_items negatives h u
          then Inr (split_after P n_items negatives h A g k)
          else Inl ValueError)"
    using Suc by simp
  have st: "split_step P n_items negatives k (split_after P n_items negatives h A g k) =
           (if step_ok P n_items negatives h k
            then Inr (split_after P n_items negatives h A g (Suc k))
            else Inl ValueError)"
    using Suc.prems [of k] by (intro split_step_after) auto
  have "split_loop P n_items negatives [0..<Suc k]
           \<lparr>user_to_items = h, all_ratings = A, test_ratings = [], test_negs = [], rng = g\<rparr> =
        (case split_loop P n_items negatives [0..<k]
           \<lparr>user_to_items = h, all_ratings = A, test_ratings = [], test_negs = [], rng = g\<rparr> of
           Inl e \<Rightarrow> Inl e
         | Inr s' \<Rightarrow> split_step P n_items negatives k s')"
    by (simp add: split_loop_append split: sum.splits)
  also have "\<dots> = (if \<forall>u<Suc k. step_ok P n_items negatives h u
          then Inr (split_after P n_items negatives h A g (Suc k))
          else Inl ValueError)"
    unfolding ih using st by (auto simp: less_Suc_eq)
  finally show ?case .
qed

lemma foldl_append_item:
  "foldl append_item m df u = m u @ map item_id (filter (\<lambda>r. user_id r = u) df)"
  by (induction df arbitrary: m) (auto simp: append_item_def)

lemma collect_items_eq: "collect_items df u = map item_id (filter (\<lambda>r. user_id r = u) df)"
  by (simp add: collect_items_def foldl_append_item)

lemma collect_items_code [code]:
  "collect_items df u = map item_id (filter (\<lambda>r. user_id r = u) df)"
  by (rule collect_items_eq)

lemma collect_items_table: "collect_items (table P df) = history P df"
  by (rule ext) (simp add: collect_items_eq history_def user_rows_def)

lemma zip_cols: "zip (map f xs) (map g xs) = map (\<lambda>x. (f x, g x)) xs"
  by (induction xs) auto

lemma rating_pairs_eq: "rating_pairs df = (\<lambda>r. (user_id r, item_id r)) ` set df"
  unfolding rating_pairs_def zip_cols by simp

lemma group_len_filter:
  "group_len (filter_min_ratings df) u = (if MIN_RATINGS \<le> group_len df u then group_len df u else 0)"
proof -
  have "filter (\<lambda>r. user_id r = u) (filter_min_ratings df) =
        filter (\<lambda>r. user_id r = u \<and> MIN_RATINGS \<le> group_len df u) df"
    unfolding filter_min_ratings_def filter_filter by (rule filter_cong) auto
  then show ?thesis by (auto simp: group_len_def)
qed

lemma original_users_iff: "u \<in> set (original_users df) \<longleftrightarrow> MIN_RATINGS \<le> group_len df u"
proof
  assume "u \<in> set (original_users df)"
  then show "MIN_RATINGS \<le> group_len df u"
    by (auto simp: set_original_users filter_min_ratings_def)
next
  assume a: "MIN_RATINGS \<le> group_len df u"
  then have "filter (\<lambda>r. user_id r = u) df \<noteq> []"
    by (auto simp: group_len_def MIN_RATINGS_def)
  then obtain r where "r \<in> set df" "user_id r = u"
    by (auto simp: filter_empty_conv)
  with a show "u \<in> set (original_users df)"
    by (force simp: set_original_users filter_min_ratings_def)
qed

lemma length_user_rows_remapped:
  assumes "u < length (original_users df)"
  shows "length (filter (\<lambda>r. user_id r = u) (remapped df)) = group_len df (original_users df ! u)"
proof -
  let ?U = "original_users df"
  have "filter (\<lambda>r. user_index df (user_id r) = u) (filter_min_ratings df) =
        filter (\<lambda>r. user_id r = ?U ! u) (filter_min_ratings df)"
  proof (rule filter_cong [OF refl])
    fix r assume "r \<in> set (filter_min_ratings df)"
    then have "user_id r \<in> set ?U" by (simp add: set_original_users)
    from user_index_in(3) [OF this] user_index_nth [OF assms]
    show "(user_index df (user_id r) = u) = (user_id r = ?U ! u)" by auto
  qed
  then have "length (filter (\<lambda>r. user_id r = u) (remapped df)) = group_len (filter_min_ratings df) (?U ! u)"
    by (simp add: remapped_def filter_map o_def group_len_def)
  moreover have "?U ! u \<in> set ?U" using assms by simp
  ultimately show ?thesis by (simp add: group_len_filter original_users_iff)
qed

lemma mset_table: "sort_ok P \<Longrightarrow> mset (table P df) = mset (remapped df)"
  by (simp add: sort_ok_def table_def)

lemma set_table: "sort_ok P \<Longrightarrow> set (table P df) = set (remapped df)"
  using mset_table [of P df] by (metis set_mset_mset)

lemma length_user_rows:
  assumes "sort_ok P" "u < length (original_users df)"
  shows "length (user_rows P df u) = group_len df (original_users df ! u)"
proof -
  have "mset (user_rows P df u) = mset (filter (\<lambda>r. user_id r = u) (remapped df))"
    by (simp add: user_rows_def mset_table [OF assms(1)])
  then have "length (user_rows P df u) = length (filter (\<lambda>r. user_id r = u) (remapped df))"
    by (rule mset_eq_length)
  with assms(2) show ?thesis by (simp add: length_user_rows_remapped)
qed

lemma min_ratings_user_rows:
  assumes "sort_ok P" "u < length (original_users df)"
  shows "MIN_RATINGS \<le> length (user_rows P df u)"
proof -
  have "original_users df ! u \<in> set (original_users df)" using assms(2) by simp
  then show ?thesis by (simp add: length_user_rows [OF assms] original_users_iff)
qed

lemma user_rows_nonempty:
  "sort_ok P \<Longrightarrow> u < length (original_users df) \<Longrightarrow> user_rows P df u \<noteq> []"
  using min_ratings_user_rows [of P u df] by (auto simp: MIN_RATINGS_def)

lemma last_history:
  "user_rows P df u \<noteq> [] \<Longrightarrow> last (history P df u) = item_id (last (user_rows P df u))"
  by (simp add: history_def last_map)

lemma last_user_rows_in:
  assumes "user_rows P df u \<noteq> []"
  shows "last (user_rows P df u) \<in> set (table P df)" and "user_id (last (user_rows P df u)) = u"
proof -
  from assms have "last (user_rows P df u) \<in> set (user_rows P df u)" by simp
  then show "last (user_rows P df u) \<in> set (table P df)" "user_id (last (user_rows P df u)) = u"
    by (simp_all add: user_rows_def)
qed

lemma test_pair_in:
  assumes "user_rows P df u \<noteq> []"
  shows "(u, last (history P df u)) \<in> rating_pairs (table P df)"
  using last_user_rows_in [OF assms] by (force simp: rating_pairs_eq last_history [OF assms])

lemma main_split_eq:
  assumes "sort_ok P"
  shows "main_split P g0 df seed negatives =
     (if \<not> (0 \<le> seed \<and> seed < 2 ^ 32) then Inl ValueError
      else if filter_min_ratings df = [] then Inl AssertionError
      else if sampler_ok P df negatives then Inr (final_state P df seed negatives)
      else Inl ValueError)"
proof (cases "0 \<le> seed \<and> seed < 2 ^ 32")
  case False
  then show ?thesis by (auto simp: main_split_def np_random_seed_def)
next
  case seed: True
  show ?thesis
  proof (cases "filter_min_ratings df = []")
    case True
    with seed show ?thesis
      by (simp add: main_split_def np_random_seed_def sorted_table_def remap_checked_empty)
  next
    case False
    have pre: "\<And>u. u < length (original_users df) \<Longrightarrow>
        history P df u \<noteq> [] \<and> (u, last (history P df u)) \<in> rating_pairs (table P df)"
      using user_rows_nonempty [OF assms] test_pair_in by (fastforce simp: history_def)
    have st: "sorted_table P df = Inr (table P df)"
      using False by (simp add: sorted_table_def remap_checked_nonempty table_def)
    show ?thesis
      using seed False
      by (simp add: main_split_def np_random_seed_def st collect_items_table
          split_loop_upt [OF pre] sampler_ok_def final_state_def)
  qed
qed

lemma main_eq:
  assumes "sort_ok P"
  shows "main P g0 df seed negatives =
     (if \<not> (0 \<le> seed \<and> seed < 2 ^ 32) then Inl ValueError
      else if filter_min_ratings df = [] then Inl AssertionError
      else if sampler_ok P df negatives then Inr (write_files P (final_state P df seed negatives))
      else Inl ValueError)"
  by (simp add: main_def main_split_eq [OF assms])

lemma main_split_InrD:
  assumes "sort_ok P" "main_split P g0 df seed negatives = Inr s"
  shows "s = final_state P df seed negatives" and "filter_min_ratings df \<noteq> []"
    and "sampler_ok P df negatives" and "0 \<le> seed \<and> seed < 2 ^ 32"
  using assms(2) unfolding main_split_eq [OF assms(1)] by (auto split: if_splits)

lemma sort_ok_demo: "sort_ok demo"
  by (simp add: sort_ok_def demo_def)

lemma sort_stable_demo: "sort_stable demo"
  by (simp add: sort_stable_def demo_def filter_sort [symmetric] sort_key_stable)

lemma randint_ok_demo: "randint_ok demo"
  by (simp add: randint_ok_def demo_def)

lemma items_iter_ok_demo: "items_iter_ok demo"
  by (simp add: items_iter_ok_def demo_def)

lemma pairs_iter_ok_demo: "pairs_iter_ok demo"
  by (simp add: pairs_iter_ok_def demo_def)

lemma final_state_simps:
  "test_ratings (final_state P df seed negatives) =
     map (\<lambda>u. (u, last (history P df u))) [0..<length (original_users df)]"
  "all_ratings (final_state P df seed negatives) =
     rating_pairs (table P df) - (\<lambda>u. (u, last (history P df u))) ` {0..<length (original_users df)}"
  "user_to_items (final_state P df seed negatives) =
     (\<lambda>u. if u < length (original_users df) then butlast (history P df u) else history P df u)"
  "test_negs (final_state P df seed negatives) =
     map (negs_of P (\<lambda>u. candidates P (length (original_items df)) (butlast (history P df u)))
            (nat negatives) (seed_state P seed)) [0..<length (original_users df)]"
  "rng (final_state P df seed negatives) =
     rng_before P (\<lambda>u. candidates P (length (original_items df)) (butlast (history P df u)))
       (nat negatives) (seed_state P seed) (length (original_users df))"
  by (simp_all add: final_state_def split_after_def)

lemma sorted_le_last:
  assumes "sorted (map f xs)" "r \<in> set xs"
  shows "f r \<le> f (last xs)"
proof -
  from assms(2) obtain i where i: "i < length xs" "xs ! i = r" by (auto simp: in_set_conv_nth)
  then have ne: "xs \<noteq> []" by auto
  from assms(1) i have "map f xs ! i \<le> map f xs ! (length xs - 1)"
    by (intro sorted_nth_mono) auto
  with i ne show ?thesis by (simp add: last_conv_nth)
qed

lemma sorted_user_rows: "sort_ok P \<Longrightarrow> sorted (map timestamp (user_rows P df u))"
  unfolding user_rows_def table_def by (rule sorted_filter) (simp add: sort_ok_def)

lemma sorted_table_eq:
  "filter_min_ratings df \<noteq> [] \<Longrightarrow> sorted_table P df = Inr (table P df)"
  by (simp add: sorted_table_def remap_checked_nonempty table_def)

lemma rating_pairs_table: "sort_ok P \<Longrightarrow> rating_pairs (table P df) = rating_pairs (remapped df)"
  by (simp add: rating_pairs_eq set_table)

section \<open>Lemmas: candidate pools and draws\<close>

lemma candidates_eq:
  assumes "items_iter_ok P"
  shows "candidates P n_items items = sorted_list_of_set ({0..<n_items} - set items)"
proof -
  let ?S = "{0..<n_items} - set items"
  have fin: "finite ?S" by simp
  with assms have l: "set (list_of_items P ?S) = ?S" "distinct (list_of_items P ?S)"
    unfolding items_iter_ok_def by blast+
  show ?thesis
    unfolding candidates_def
    by (rule sorted_distinct_set_unique) (use l fin in simp_all)
qed

lemma set_candidates:
  "items_iter_ok P \<Longrightarrow> set (candidates P n_items items) = {0..<n_items} - set items"
  by (simp add: candidates_eq)

lemma length_draws: "length (fst (draws P n k g)) = k"
  by (induction k arbitrary: g) (simp_all add: split_def Let_def)

lemma draws_bound:
  assumes "randint_ok P" "0 < n"
  shows "\<forall>i\<in>set (fst (draws P n k g)). i < n"
proof (induction k arbitrary: g)
  case 0
  then show ?case by simp
next
  case (Suc k)
  from assms have "fst (randint P g n) < n" by (simp add: randint_ok_def)
  with Suc [of "snd (randint P g n)"] show ?case
    by (simp add: split_def Let_def)
qed

lemma length_negs_of: "length (negs_of P pool k g u) = k"
  by (simp add: negs_of_def length_draws)

lemma set_negs_of:
  assumes "randint_ok P" "pool u = [] \<longrightarrow> k = 0"
  shows "set (negs_of P pool k g u) \<subseteq> set (pool u)"
proof (cases "pool u = []")
  case True
  with assms(2) show ?thesis by (simp add: negs_of_def)
next
  case False
  then have "0 < length (pool u)" by simp
  from draws_bound [OF assms(1) this] show ?thesis
    by (auto simp: negs_of_def)
qed

lemma item_col_table:
  "sort_ok P \<Longrightarrow> item_id ` set (table P df) = {0..<length (original_items df)}"
  using set_item_col_remapped [of df] by (simp add: set_table)

lemma last_not_in_butlast: "distinct xs \<Longrightarrow> xs \<noteq> [] \<Longrightarrow> last xs \<notin> set (butlast xs)"
  by (induction xs rule: rev_induct) auto

lemma inj_on_user_index: "inj_on (user_index df) (set (original_users df))"
  by (rule inj_on_inverseI [where g = "\<lambda>i. original_users df ! i"]) (simp add: user_index_in(3))

lemma inj_on_item_index: "inj_on (item_index df) (set (original_items df))"
  by (rule inj_on_inverseI [where g = "\<lambda>i. original_items df ! i"]) (simp add: item_index_in(3))

lemma distinct_pairs_remapped:
  assumes "distinct (map (\<lambda>r. (user_id r, item_id r)) df)"
  shows "distinct (map (\<lambda>r. (user_id r, item_id r)) (remapped df))"
proof -
  let ?df1 = "filter_min_ratings df"
  let ?g = "\<lambda>p. (user_index df (fst p), item_index df (snd p))"
  have d1: "distinct (map (\<lambda>r. (user_id r, item_id r)) ?df1)"
    unfolding filter_min_ratings_def by (rule distinct_map_filter [OF assms])
  have inj: "inj_on ?g (set (map (\<lambda>r. (user_id r, item_id r)) ?df1))"
  proof (rule inj_onI)
    fix p q
    assume p: "p \<in> set (map (\<lambda>r. (user_id r, item_id r)) ?df1)"
      and q: "q \<in> set (map (\<lambda>r. (user_id r, item_id r)) ?df1)"
      and e: "?g p = ?g q"
    from p q have "fst p \<in> set (original_users df)" "fst q \<in> set (original_users df)"
      "snd p \<in> set (original_items df)" "snd q \<in> set (original_items df)"
      by (auto simp: set_original_users set_original_items)
    with e inj_on_user_index [of df] inj_on_item_index [of df]
    have "fst p = fst q" "snd p = snd q" by (auto dest: inj_onD)
    then show "p = q" by (simp add: prod_eq_iff)
  qed
  have "map (\<lambda>r. (user_id r, item_id r)) (remapped df) =
        map ?g (map (\<lambda>r. (user_id r, item_id r)) ?df1)"
    by (simp add: remapped_def o_def)
  with d1 inj show ?thesis by (simp only: distinct_map)
qed

lemma distinct_history:
  assumes "sort_ok P" "distinct (map (\<lambda>r. (user_id r, item_id r)) df)"
  shows "distinct (history P df u)"
proof -
  have "mset (map (\<lambda>r. (user_id r, item_id r)) (table P df)) =
        mset (map (\<lambda>r. (user_id r, item_id r)) (remapped df))"
    by (simp add: mset_table [OF assms(1)])
  then have "distinct (map (\<lambda>r. (user_id r, item_id r)) (table P df))"
    using distinct_pairs_remapped [OF assms(2)] by (metis mset_eq_imp_distinct_iff)
  then have "distinct (map (\<lambda>r. (user_id r, item_id r)) (user_rows P df u))"
    unfolding user_rows_def by (rule distinct_map_filter)
  moreover have "map (\<lambda>r. (user_id r, item_id r)) (user_rows P df u) =
        map (Pair u) (map item_id (user_rows P df u))"
    by (simp add: user_rows_def)
  ultimately show ?thesis by (simp add: history_def distinct_map del: map_map)
qed

lemma sorted_table_InrD:
  assumes "sorted_table P df = Inr df3"
  shows "filter_min_ratings df \<noteq> []" and "df3 = table P df"
proof -
  from assms obtain df2 where r: "remap_checked df = Inr df2" and s: "df3 = sort_by_timestamp P df2"
    by (auto simp: sorted_table_def split: sum.splits)
  from remap_checked_Inr [OF r] s show "filter_min_ratings df \<noteq> []" "df3 = table P df"
    by (simp_all add: table_def)
qed

lemma split_pre:
  assumes "sort_ok P" "u < length (original_users df)"
  shows "MIN_RATINGS \<le> length (history P df u)"
    and "history P df u \<noteq> []"
    and "(u, last (history P df u)) \<in> rating_pairs (table P df)"
proof -
  show "MIN_RATINGS \<le> length (history P df u)"
    using min_ratings_user_rows [OF assms] by (simp add: history_def)
  have ne: "user_rows P df u \<noteq> []" by (rule user_rows_nonempty [OF assms])
  then show "history P df u \<noteq> []" by (simp add: history_def)
  show "(u, last (history P df u)) \<in> rating_pairs (table P df)" by (rule test_pair_in [OF ne])
qed

lemma rng_before_cong:
  "(\<And>v. v < u \<Longrightarrow> pool v = pool' v) \<Longrightarrow> rng_before P pool k g u = rng_before P pool' k g u"
  by (induction u) simp_all

lemma negs_of_cong:
  assumes "\<And>v. v \<le> u \<Longrightarrow> pool v = pool' v"
  shows "negs_of P pool k g u = negs_of P pool' k g u"
proof -
  have "rng_before P pool k g u = rng_before P pool' k g u"
    by (rule rng_before_cong) (simp add: assms)
  moreover have "pool u = pool' u" by (simp add: assms)
  ultimately show ?thesis by (simp add: negs_of_def)
qed

section \<open>Lemmas: draws one by one, and the lookup in the pool\<close>

lemma snd_draws: "snd (draws P n k g) = (after_draw P n ^^ k) g"
  by (induction k arbitrary: g) (simp_all add: split_def Let_def funpow_swap1 after_draw_def [symmetric])

lemma nth_draws:
  "j < k \<Longrightarrow> fst (draws P n k g) ! j = fst (randint P ((after_draw P n ^^ j) g) n)"
proof (induction k arbitrary: g j)
  case 0
  then show ?case by simp
next
  case (Suc k)
  show ?case
  proof (cases j)
    case 0
    then show ?thesis by (simp add: split_def Let_def)
  next
    case (Suc i)
    with Suc.prems have "i < k" by simp
    from Suc.IH [OF this, of "snd (randint P g n)"] Suc show ?thesis
      by (simp add: split_def Let_def funpow_swap1 after_draw_def [symmetric])
  qed
qed

lemma lookup_bij:
  assumes "distinct pool"
  shows "bij_betw (map (\<lambda>i. pool ! i))
           {idx. length idx = k \<and> set idx \<subseteq> {0..<length pool}}
           {row. length row = k \<and> set row \<subseteq> set pool}"
proof (rule bij_betw_imageI)
  have "inj_on (\<lambda>i. pool ! i) {0..<length pool}"
    using assms by (auto simp: inj_on_def nth_eq_iff_index_eq)
  then have "inj_on (map (\<lambda>i. pool ! i)) (lists {0..<length pool})"
    by (rule inj_on_map_lists)
  then show "inj_on (map (\<lambda>i. pool ! i)) {idx. length idx = k \<and> set idx \<subseteq> {0..<length pool}}"
    by (rule inj_on_subset) auto
  show "map (\<lambda>i. pool ! i) ` {idx. length idx = k \<and> set idx \<subseteq> {0..<length pool}} =
        {row. length row = k \<and> set row \<subseteq> set pool}"
  proof
    show "map (\<lambda>i. pool ! i) ` {idx. length idx = k \<and> set idx \<subseteq> {0..<length pool}}
          \<subseteq> {row. length row = k \<and> set row \<subseteq> set pool}"
    proof (clarsimp)
      fix idx i assume a: "set idx \<subseteq> {0..<length pool}" "i \<in> set idx"
      then have "i < length pool" by auto
      then show "pool ! i \<in> set pool" by (rule nth_mem)
    qed
    show "{row. length row = k \<and> set row \<subseteq> set pool}
          \<subseteq> map (\<lambda>i. pool ! i) ` {idx. length idx = k \<and> set idx \<subseteq> {0..<length pool}}"
    proof
      fix row assume "row \<in> {row. length row = k \<and> set row \<subseteq> set pool}"
      then have l: "length row = k" and "row \<in> lists (set pool)" by auto
      moreover have "(\<lambda>i. pool ! i) ` {0..<length pool} = set pool"
      proof (intro equalityI subsetI)
        fix x assume "x \<in> (\<lambda>i. pool ! i) ` {0..<length pool}"
        then obtain i where "i < length pool" "x = pool ! i" by auto
        then show "x \<in> set pool" by simp
      next
        fix x assume "x \<in> set pool"
        then obtain i where "i < length pool" "pool ! i = x" by (auto simp: in_set_conv_nth)
        then show "x \<in> (\<lambda>i. pool ! i) ` {0..<length pool}" by force
      qed
      ultimately have "row \<in> lists ((\<lambda>i. pool ! i) ` {0..<length pool})"
        by simp
      then obtain idx where "idx \<in> lists {0..<length pool}" "row = map (\<lambda>i. pool ! i) idx"
        unfolding lists_image by auto
      with l show "row \<in> map (\<lambda>i. pool ! i) ` {idx. length idx = k \<and> set idx \<subseteq> {0..<length pool}}"
        by auto
    qed
  qed
qed

section \<open>Lemmas: dependence on the platform\<close>

lemma draws_cong: "randint P' = randint P \<Longrightarrow> draws P' n k g = draws P n k g"
  by (induction k arbitrary: g) simp_all

lemma choice_cong: "randint P' = randint P \<Longrightarrow> choice P' g a n = choice P g a n"
  using draws_cong [of P' P] by (simp add: choice_def)

lemma split_step_cong:
  assumes "items_iter_ok P" "items_iter_ok P'" "randint P' = randint P"
  shows "split_step P' n_items negatives user s = split_step P n_items negatives user s"
proof -
  have "sort (list_of_items P' ({0..<n_items} - set items)) =
        sort (list_of_items P ({0..<n_items} - set items))" for items
    using candidates_eq [OF assms(1), of n_items items] candidates_eq [OF assms(2), of n_items items]
    by (simp add: candidates_def)
  then show ?thesis
    unfolding split_step_def Let_def choice_cong [OF assms(3)]
    by (simp split: list.splits)
qed

lemma split_loop_cong:
  assumes "items_iter_ok P" "items_iter_ok P'" "randint P' = randint P"
  shows "split_loop P' n_items negatives users s = split_loop P n_items negatives users s"
  by (induction users arbitrary: s) (simp_all add: split_step_cong [OF assms] split: sum.splits)

section \<open>Lemmas: the sort and the order of ties\<close>

lemma last_filter_same: "xs \<noteq> [] \<Longrightarrow> Q (last xs) \<Longrightarrow> last (filter Q xs) = last xs"
  by (induction xs rule: rev_induct) auto

lemma last_sort_key:
  fixes f :: "'a \<Rightarrow> int"
  assumes "ys \<noteq> []"
  shows "last (sort_key f ys) = last (filter (\<lambda>r. f r = Max (f ` set ys)) ys)"
proof -
  let ?zs = "sort_key f ys"
  from assms have ne: "?zs \<noteq> []" by (metis length_0_conv length_sort)
  then have in_set: "last ?zs \<in> set ys" using last_in_set [OF ne] by simp
  have le: "f r \<le> f (last ?zs)" if "r \<in> set ys" for r
    using sorted_le_last [of f ?zs r] that by simp
  have m: "Max (f ` set ys) = f (last ?zs)"
    by (rule Max_eqI) (use in_set le in auto)
  have "last ?zs = last (filter (\<lambda>r. f r = f (last ?zs)) ?zs)"
    by (rule last_filter_same [symmetric, OF ne]) simp
  also have "\<dots> = last (filter (\<lambda>r. f r = f (last ?zs)) ys)"
    by (simp only: sort_key_stable)
  finally show ?thesis by (simp only: m)
qed

lemma stable_sort_key:
  assumes "sort_ok P" "sort_stable P"
  shows "sort_by_timestamp P xs = sort_key timestamp xs"
proof (rule properties_for_sort_key [symmetric])
  show "mset (sort_by_timestamp P xs) = mset xs" using assms(1) by (simp add: sort_ok_def)
  show "sorted (map timestamp (sort_by_timestamp P xs))" using assms(1) by (simp add: sort_ok_def)
  fix k
  have "filter (\<lambda>x. timestamp x = timestamp k) (sort_by_timestamp P xs) =
        filter (\<lambda>x. timestamp x = timestamp k) xs"
    using assms(2) by (simp add: sort_stable_def)
  then show "filter (\<lambda>x. timestamp k = timestamp x) (sort_by_timestamp P xs) =
        filter (\<lambda>x. timestamp k = timestamp x) xs"
    by (simp add: eq_commute [of "timestamp k"])
qed

lemma user_rows_remapped_nonempty:
  assumes "u < length (original_users df)"
  shows "filter (\<lambda>r. user_id r = u) (remapped df) \<noteq> []"
proof -
  have "original_users df ! u \<in> set (original_users df)" using assms by simp
  then have "MIN_RATINGS \<le> group_len df (original_users df ! u)"
    by (simp add: original_users_iff)
  then have "0 < length (filter (\<lambda>r. user_id r = u) (remapped df))"
    by (simp add: length_user_rows_remapped [OF assms] MIN_RATINGS_def)
  then show ?thesis by auto
qed

lemma last_user_rows_stable:
  assumes "sort_ok P" "sort_stable P" "u < length (original_users df)"
  shows "last (user_rows P df u) = latest_row (remapped df) u"
proof -
  have "user_rows P df u = sort_key timestamp (filter (\<lambda>r. user_id r = u) (remapped df))"
    by (simp add: user_rows_def table_def stable_sort_key [OF assms(1,2)] filter_sort)
  then show ?thesis
    by (simp add: latest_row_def last_sort_key [OF user_rows_remapped_nonempty [OF assms(3)]])
qed

section \<open>Lemmas: the output tables\<close>

lemma user_col_table:
  "sort_ok P \<Longrightarrow> user_id ` set (table P df) = {0..<length (original_users df)}"
  using set_user_col_remapped [of df] by (simp add: set_table)

lemma all_ratings_final_subset:
  "all_ratings (final_state P df seed negatives) \<subseteq> rating_pairs (table P df)"
  by (auto simp: final_state_simps)

lemma finite_rating_pairs: "finite (rating_pairs df)"
  by (simp add: rating_pairs_def)

lemma rating_pairs_user:
  assumes "sort_ok P" "(u, i) \<in> rating_pairs (table P df)"
  shows "u < length (original_users df)" and "i < length (original_items df)"
proof -
  from assms(2) obtain r where r: "r \<in> set (table P df)" "user_id r = u" "item_id r = i"
    by (auto simp: rating_pairs_eq)
  then have "u \<in> user_id ` set (table P df)" "i \<in> item_id ` set (table P df)" by auto
  then show "u < length (original_users df)" "i < length (original_items df)"
    by (simp_all add: user_col_table [OF assms(1)] item_col_table [OF assms(1)])
qed

section \<open>Lemmas: the rendering of a table\<close>

lemma digit_char_in: "d < 10 \<Longrightarrow> digit_char d \<in> set ''0123456789''"
  unfolding digit_char_def by (rule nth_mem) simp

lemma set_str_nat: "set (str_nat n) \<subseteq> set ''0123456789''"
proof (induction n rule: str_nat.induct)
  case (1 n)
  show ?case
  proof (cases "n < 10")
    case True
    then have "str_nat n = [digit_char n]" by (subst str_nat.simps) simp
    with digit_char_in [OF True] show ?thesis by (simp del: set_simps) simp
  next
    case False
    then have e: "str_nat n = str_nat (n div 10) @ [digit_char (n mod 10)]"
      by (subst str_nat.simps) simp
    have "digit_char (n mod 10) \<in> set ''0123456789''" by (rule digit_char_in) simp
    with 1 [OF False] show ?thesis unfolding e by (simp del: set_simps) simp
  qed
qed

lemma str_nat_no_sep: "count_list (str_nat n) (CHR 0x09) = 0" "count_list (str_nat n) (CHR 0x0A) = 0"
  using set_str_nat [of n] by (auto simp: count_list_0_iff)

lemma count_join_tab:
  assumes "\<And>f. f \<in> set fs \<Longrightarrow> count_list f (CHR 0x09) = 0 \<and> count_list f (CHR 0x0A) = 0"
  shows "count_list (join_tab fs) (CHR 0x09) = length fs - 1"
    and "count_list (join_tab fs) (CHR 0x0A) = 0"
  using assms by (induction fs rule: join_tab.induct) auto

lemma count_line:
  "count_list (join_tab (map str_nat r) @ [CHR 0x0A]) (CHR 0x09) = length r - 1"
  "count_list (join_tab (map str_nat r) @ [CHR 0x0A]) (CHR 0x0A) = 1"
proof -
  have h: "count_list f (CHR 0x09) = 0 \<and> count_list f (CHR 0x0A) = 0"
    if "f \<in> set (map str_nat r)" for f
    using that by (auto simp: str_nat_no_sep)
  have c: "count_list (join_tab (map str_nat r)) (CHR 0x09) = length (map str_nat r) - 1"
    "count_list (join_tab (map str_nat r)) (CHR 0x0A) = 0"
    using count_join_tab [of "map str_nat r", OF h] by blast+
  show "count_list (join_tab (map str_nat r) @ [CHR 0x0A]) (CHR 0x09) = length r - 1"
    using c(1) by simp
  show "count_list (join_tab (map str_nat r) @ [CHR 0x0A]) (CHR 0x0A) = 1"
    using c(2) by simp
qed

lemma count_list_concat: "count_list (concat xss) c = sum_list (map (\<lambda>xs. count_list xs c) xss)"
  by (induction xss) auto

lemma count_to_csv:
  "count_list (to_csv rows) (CHR 0x0A) = length rows"
  "count_list (to_csv rows) (CHR 0x09) = sum_list (map (\<lambda>r. length r - 1) rows)"
  by (simp_all add: to_csv_def count_list_concat o_def count_line sum_list_triv del: count_list_append)

lemma sum_list_const: "(\<And>x. x \<in> set xs \<Longrightarrow> f x = c) \<Longrightarrow> sum_list (map f xs) = length xs * c"
  by (induction xs) auto

section \<open>Lemmas: reading a file back\<close>

lemma digit_val_digit_char: "d < 10 \<Longrightarrow> digit_val (digit_char d) = d"
proof -
  assume "d < 10"
  then have "d = 0 \<or> d = 1 \<or> d = 2 \<or> d = 3 \<or> d = 4 \<or> d = 5 \<or> d = 6 \<or> d = 7 \<or> d = 8 \<or> d = 9"
    by arith
  then show ?thesis by (elim disjE) (simp_all add: digit_val_def digit_char_def)
qed

lemma nat_of_str_snoc: "nat_of_str (s @ [c]) = 10 * nat_of_str s + digit_val c"
  by (simp add: nat_of_str_def)

lemma nat_of_str_str_nat: "nat_of_str (str_nat n) = n"
proof (induction n rule: str_nat.induct)
  case (1 n)
  show ?case
  proof (cases "n < 10")
    case True
    then have "str_nat n = [digit_char n]" by (subst str_nat.simps) simp
    with True show ?thesis by (simp add: nat_of_str_def digit_val_digit_char)
  next
    case False
    then have e: "str_nat n = str_nat (n div 10) @ [digit_char (n mod 10)]"
      by (subst str_nat.simps) simp
    show ?thesis
      unfolding e nat_of_str_snoc using 1 [OF False] by (simp add: digit_val_digit_char)
  qed
qed

lemma str_nat_nonempty: "str_nat n \<noteq> []"
  by (subst str_nat.simps) simp

lemma split_char_notin: "c \<notin> set f \<Longrightarrow> split_char c f = [f]"
  by (induction f) auto

lemma split_char_append:
  "c \<notin> set f \<Longrightarrow> split_char c (f @ c # rest) = f # split_char c rest"
  by (induction f) auto

lemma str_nat_no_tab: "CHR 0x09 \<notin> set (str_nat n)"
  using set_str_nat [of n] by auto

lemma str_nat_no_newline: "CHR 0x0A \<notin> set (str_nat n)"
  using set_str_nat [of n] by auto

lemma split_join_tab:
  assumes "fs \<noteq> []" "\<And>f. f \<in> set fs \<Longrightarrow> CHR 0x09 \<notin> set f"
  shows "split_char (CHR 0x09) (join_tab fs) = fs"
  using assms
proof (induction fs rule: join_tab.induct)
  case 1
  then show ?case by simp
next
  case (2 f)
  then show ?case by (simp add: split_char_notin)
next
  case (3 f g fs)
  have "split_char (CHR 0x09) (join_tab (g # fs)) = g # fs"
    by (rule 3(1)) (use 3(3) in auto)
  moreover have "CHR 0x09 \<notin> set f" using 3(3) by simp
  ultimately show ?case by (simp add: split_char_append)
qed

lemma join_tab_Nil_iff:
  "(\<And>f. f \<in> set fs \<Longrightarrow> f \<noteq> []) \<Longrightarrow> join_tab fs = [] \<longleftrightarrow> fs = []"
  by (induction fs rule: join_tab.induct) auto

lemma join_tab_no_newline:
  "(\<And>f. f \<in> set fs \<Longrightarrow> CHR 0x0A \<notin> set f) \<Longrightarrow> CHR 0x0A \<notin> set (join_tab fs)"
  by (induction fs rule: join_tab.induct) auto

lemma parse_line_join: "parse_line (join_tab (map str_nat r)) = r"
proof (cases "r = []")
  case True
  then show ?thesis by (simp add: parse_line_def)
next
  case False
  have "join_tab (map str_nat r) = [] \<longleftrightarrow> map str_nat r = []"
    by (rule join_tab_Nil_iff) (auto simp: str_nat_nonempty)
  with False have ne: "join_tab (map str_nat r) \<noteq> []" by simp
  have "split_char (CHR 0x09) (join_tab (map str_nat r)) = map str_nat r"
    by (rule split_join_tab) (use False in \<open>auto simp: str_nat_no_tab\<close>)
  with ne show ?thesis by (simp add: parse_line_def o_def nat_of_str_str_nat)
qed

lemma split_to_csv:
  "split_char (CHR 0x0A) (to_csv rows) = map (\<lambda>r. join_tab (map str_nat r)) rows @ [[]]"
proof (induction rows)
  case Nil
  then show ?case by (simp add: to_csv_def)
next
  case (Cons r rows)
  have n: "CHR 0x0A \<notin> set (join_tab (map str_nat r))"
    by (rule join_tab_no_newline) (auto simp: str_nat_no_newline)
  have "to_csv (r # rows) = join_tab (map str_nat r) @ CHR 0x0A # to_csv rows"
    by (simp add: to_csv_def)
  with Cons n show ?case by (simp add: split_char_append)
qed

lemma parse_to_csv: "parse_csv (to_csv rows) = rows"
  unfolding parse_csv_def split_to_csv
  by (simp add: o_def parse_line_join)

section \<open>Lemmas: counting the training rows\<close>

lemma sum_list_indicator:
  "a < n \<Longrightarrow> sum_list (map (\<lambda>u. if a = u then (1::nat) else 0) [0..<n]) = 1"
  by (simp add: interv_sum_list_conv_sum_set_nat)

lemma length_by_user:
  assumes "\<And>r. r \<in> set xs \<Longrightarrow> user_id r < n"
  shows "sum_list (map (\<lambda>u. length (filter (\<lambda>r. user_id r = u) xs)) [0..<n]) = length xs"
  using assms
proof (induction xs)
  case Nil
  then show ?case by simp
next
  case (Cons r xs)
  have "sum_list (map (\<lambda>u. length (filter (\<lambda>r. user_id r = u) (r # xs))) [0..<n]) =
        sum_list (map (\<lambda>u. (if user_id r = u then 1 else 0) +
                     length (filter (\<lambda>r. user_id r = u) xs)) [0..<n])"
    by (rule arg_cong [where f = sum_list], rule map_cong) auto
  also have "\<dots> = 1 + length xs"
    using Cons by (simp add: sum_list_addf sum_list_indicator)
  finally show ?case by simp
qed

lemma sum_list_Suc: "sum_list (map (\<lambda>u. Suc (f u)) xs) = sum_list (map f xs) + length xs"
  by (induction xs) auto

lemma history_total:
  assumes "sort_ok P"
  shows "sum_list (map (\<lambda>u. length (butlast (history P df u))) [0..<length (original_users df)]) +
           length (original_users df) = length (filter_min_ratings df)"
proof -
  let ?n = "length (original_users df)"
  have e: "Suc (length (butlast (history P df u))) = length (user_rows P df u)" if "u < ?n" for u
    using user_rows_nonempty [OF assms that] by (cases "user_rows P df u") (simp_all add: history_def)
  have "sum_list (map (\<lambda>u. length (butlast (history P df u))) [0..<?n]) + ?n =
        sum_list (map (\<lambda>u. Suc (length (butlast (history P df u)))) [0..<?n])"
    by (simp only: sum_list_Suc length_upt diff_zero)
  also have "\<dots> = sum_list (map (\<lambda>u. length (user_rows P df u)) [0..<?n])"
    by (rule arg_cong [where f = sum_list], rule map_cong) (use e in auto)
  also have "\<dots> = length (table P df)"
    unfolding user_rows_def
  proof (rule length_by_user)
    fix r assume "r \<in> set (table P df)"
    then have "user_id r \<in> user_id ` set (table P df)" by simp
    then show "user_id r < ?n" by (simp add: user_col_table [OF assms])
  qed
  also have "\<dots> = length (filter_min_ratings df)"
    using mset_eq_length [OF mset_table [OF assms, of df]] by (simp add: remapped_def)
  finally show ?thesis .
qed

lemma card_train:
  assumes "sort_ok P"
  shows "card (all_ratings (final_state P df seed negatives)) + length (original_users df) =
         card (rating_pairs (remapped df))"
proof -
  let ?n = "length (original_users df)"
  let ?A = "rating_pairs (table P df)"
  let ?T = "(\<lambda>u. (u, last (history P df u))) ` {0..<?n}"
  have sub: "?T \<subseteq> ?A"
    using split_pre(3) [OF assms] by auto
  have "inj_on (\<lambda>u. (u, last (history P df u))) {0..<?n}" by (rule inj_onI) simp
  then have cT: "card ?T = ?n" by (simp add: card_image)
  have "card (?A - ?T) = card ?A - card ?T"
    by (rule card_Diff_subset) (use sub finite_rating_pairs in \<open>auto intro: finite_subset\<close>)
  moreover have "card ?T \<le> card ?A" by (rule card_mono [OF finite_rating_pairs sub])
  ultimately have "card (?A - ?T) + ?n = card ?A" using cT by simp
  then show ?thesis by (simp add: final_state_simps rating_pairs_table [OF assms])
qed

lemma card_pairs_distinct:
  assumes "distinct (map (\<lambda>r. (user_id r, item_id r)) df)"
  shows "card (rating_pairs (remapped df)) = length (filter_min_ratings df)"
proof -
  have "rating_pairs (remapped df) = set (map (\<lambda>r. (user_id r, item_id r)) (remapped df))"
    by (simp add: rating_pairs_eq)
  then have "card (rating_pairs (remapped df)) = length (map (\<lambda>r. (user_id r, item_id r)) (remapped df))"
    using distinct_card [OF distinct_pairs_remapped [OF assms]] by simp
  then show ?thesis by (simp add: remapped_def)
qed

section \<open>The leave-one-out split\<close>



section \<open>Negatives and the training history\<close>

text \<open>
  C2, as the script has it. When the run completes, no sampled negative of a user is an
  item of that user's history after the pop, and every negative is an item index. The row
  of negatives is read, at indices drawn below its length, from the candidate pool built
  from the history after the pop: the item indices outside that history, nothing else
  taken out. So the held-out item is in the pool the row is drawn from exactly when the
  user has no other row with that item. That is so for every user when no (user, item)
  pair occurs twice in the input.
\<close>

theorem negatives_avoid_history:
  assumes "sort_ok P" and "randint_ok P" and "items_iter_ok P"
    and "main_split P g0 df seed negatives = Inr s"
    and "u < length (original_users df)"
  shows "(\<forall>x\<in>set (test_negs s ! u).
            x \<notin> set (user_to_items s u) \<and> x < length (original_items df)) \<and>
         length (test_negs s ! u) = nat negatives \<and>
         (let pool = candidates P (length (original_items df)) (user_to_items s u);
              idx = fst (draws P (length pool) (nat negatives)
                      (rng_before P (\<lambda>v. candidates P (length (original_items df)) (user_to_items s v))
                         (nat negatives) (seed_state P seed) u))
          in test_negs s ! u = map (\<lambda>i. pool ! i) idx \<and> set idx \<subseteq> {0..<length pool}) \<and>
         set (candidates P (length (original_items df)) (user_to_items s u)) =
           {0..<length (original_items df)} - set (user_to_items s u) \<and>
         snd (test_ratings s ! u) < length (original_items df) \<and>
         (snd (test_ratings s ! u) \<in> set (candidates P (length (original_items df)) (user_to_items s u))
            \<longleftrightarrow> snd (test_ratings s ! u) \<notin> set (user_to_items s u)) \<and>
         (distinct (map (\<lambda>r. (user_id r, item_id r)) df) \<longrightarrow>
            snd (test_ratings s ! u) \<in> set (candidates P (length (original_items df)) (user_to_items s u)))"
proof -
  note d = main_split_InrD [OF assms(1,4)]
  let ?ni = "length (original_items df)"
  let ?pool = "\<lambda>u. candidates P ?ni (butlast (history P df u))"
  let ?pool' = "\<lambda>v. candidates P ?ni (user_to_items s v)"
  have hist: "user_to_items s u = butlast (history P df u)"
    using assms(5) by (simp add: d(1) final_state_simps)
  have pool: "?pool' v = ?pool v" if "v \<le> u" for v
    using that assms(5) by (simp add: d(1) final_state_simps)
  have negs: "test_negs s ! u = negs_of P ?pool (nat negatives) (seed_state P seed) u"
    using assms(5) by (simp add: d(1) final_state_simps)
  have "negs_of P ?pool' (nat negatives) (seed_state P seed) u =
        negs_of P ?pool (nat negatives) (seed_state P seed) u"
    by (rule negs_of_cong) (rule pool)
  with negs have negs': "test_negs s ! u = negs_of P ?pool' (nat negatives) (seed_state P seed) u"
    by simp
  have test: "snd (test_ratings s ! u) = last (history P df u)"
    using assms(5) by (simp add: d(1) final_state_simps)
  have ne: "user_rows P df u \<noteq> []" by (rule user_rows_nonempty [OF assms(1,5)])
  from d(3) assms(5) have "step_ok P ?ni negatives (history P df) u"
    by (simp add: sampler_ok_def)
  then have emp: "?pool u = [] \<longrightarrow> nat negatives = 0" by (simp add: step_ok_def)
  from set_negs_of [OF assms(2), of ?pool u "nat negatives" "seed_state P seed"] emp
  have sub: "set (test_negs s ! u) \<subseteq> {0..<?ni} - set (butlast (history P df u))"
    by (simp add: negs set_candidates [OF assms(3)])
  have 1: "\<forall>x\<in>set (test_negs s ! u). x \<notin> set (user_to_items s u) \<and> x < ?ni"
    using sub by (auto simp: hist)
  have 2: "length (test_negs s ! u) = nat negatives" by (simp add: negs length_negs_of)
  let ?idx = "fst (draws P (length (?pool' u)) (nat negatives)
                      (rng_before P ?pool' (nat negatives) (seed_state P seed) u))"
  have 3: "test_negs s ! u = map (\<lambda>i. ?pool' u ! i) ?idx"
    by (simp add: negs' negs_of_def)
  have 4: "set ?idx \<subseteq> {0..<length (?pool' u)}"
  proof (cases "?pool' u = []")
    case True
    with emp pool [of u] have "nat negatives = 0" by simp
    then show ?thesis by simp
  next
    case False
    then have "0 < length (?pool' u)" by simp
    from draws_bound [OF assms(2) this] show ?thesis by auto
  qed
  have 5: "set (?pool' u) = {0..<?ni} - set (user_to_items s u)"
    by (rule set_candidates [OF assms(3)])
  have "last (history P df u) \<in> item_id ` set (table P df)"
    using last_user_rows_in(1) [OF ne] by (simp add: last_history [OF ne])
  then have 6: "snd (test_ratings s ! u) < ?ni"
    by (simp add: test item_col_table [OF assms(1)])
  have 7: "snd (test_ratings s ! u) \<in> set (?pool' u)
            \<longleftrightarrow> snd (test_ratings s ! u) \<notin> set (user_to_items s u)"
    using 6 by (simp add: 5)
  have 8: "snd (test_ratings s ! u) \<in> set (?pool' u)"
    if "distinct (map (\<lambda>r. (user_id r, item_id r)) df)"
  proof -
    have "history P df u \<noteq> []" using ne by (simp add: history_def)
    with distinct_history [OF assms(1) that, of u]
    have "last (history P df u) \<notin> set (butlast (history P df u))"
      by (rule last_not_in_butlast)
    then show ?thesis using 7 by (simp add: test hist)
  qed
  from 1 2 3 4 5 6 7 8 show ?thesis unfolding Let_def by blast
qed

theorem negatives_avoid_history_witness:
  "\<exists>s. main_split demo 0 toy 1 3 = Inr s \<and> test_negs s ! 0 = [19, 21, 20] \<and>
       user_to_items s 0 = [0..<19] \<and> test_ratings s ! 0 = (0, 19) \<and>
       snd (test_ratings s ! 0) \<in> set (test_negs s ! 0) \<and>
       snd (test_ratings s ! 0) \<in> set (candidates demo (length (original_items toy)) (user_to_items s 0))"
proof -
  have "case main_split demo 0 toy 1 3 of
          Inr s \<Rightarrow> test_negs s ! 0 = [19, 21, 20] \<and> user_to_items s 0 = [0..<19] \<and>
                   test_ratings s ! 0 = (0, 19)
        | Inl _ \<Rightarrow> False"
    by code_simp
  then obtain s where s: "main_split demo 0 toy 1 3 = Inr s"
    "test_negs s ! 0 = [19, 21, 20]" "user_to_items s 0 = [0..<19]" "test_ratings s ! 0 = (0, 19)"
    by (auto split: sum.splits)
  have u: "0 < length (original_users toy)" by code_simp
  have d: "distinct (map (\<lambda>r. (user_id r, item_id r)) toy)" by code_simp
  from negatives_avoid_history [OF sort_ok_demo randint_ok_demo items_iter_ok_demo s(1) u] d
  have "snd (test_ratings s ! 0) \<in> set (candidates demo (length (original_items toy)) (user_to_items s 0))"
    by blast
  moreover have "snd (test_ratings s ! 0) \<in> set (test_negs s ! 0)"
    by (simp add: s(2,4))
  ultimately show ?thesis using s by blast
qed

text \<open>
  In \<open>toy_dup\<close> user 7 (index 0) rates item 0 first and last. The later rating is held
  out, the earlier one stays in the history, item 0 is not among the candidates, and the
  user's negatives are drawn from the three items of the other user alone.
\<close>

theorem held_out_item_excluded:
  "(case main_split demo 0 toy_dup 1 3 of
      Inr s \<Rightarrow> test_ratings s ! 0 = (0, 0) \<and> 0 \<in> set (user_to_items s 0) \<and>
               candidates demo (length (original_items toy_dup)) (user_to_items s 0) = [19, 20, 21] \<and>
               test_negs s ! 0 = [19, 21, 20]
    | Inl _ \<Rightarrow> False)"
  by code_simp

section \<open>The order of the draws\<close>

text \<open>
  C3. When the run completes there is one row of negatives per user, each of exactly
  \<open>negatives\<close> items. The row of user \<open>u\<close> is read from the pool, the ascending list
  without repetition of the item indices outside the user's history after the pop, at the
  indices \<open>idx\<close>. These are \<open>negatives\<close> successive bounded draws of the one generator,
  every one with the length of the same unchanged pool as its bound (so with
  replacement), the \<open>j\<close>-th from the state the \<open>j\<close> draws before it left. The draws of
  user 0 start from the state the seed gives, whatever the state was before, those of user
  \<open>u + 1\<close> from the state left by the draws of user \<open>u\<close>, and the loop ends in the state
  left by the last user.

  Uniformity: a bounded draw is the library's \<^verbatim>\<open>randint\<close>, whose contract is the
  uniform distribution on the indices below the bound; a generator that keeps the bound
  gives index tuples below the pool's length, and the lookup in the pool is one-to-one
  from these tuples onto the tuples of pool items of the same length. So the row is
  distributed over the tuples of pool items exactly as the index tuple is over the tuples
  of indices: uniformly, when the library's draws are.
\<close>

theorem sampling_order:
  assumes "sort_ok P" and "items_iter_ok P"
    and "main_split P g0 df seed negatives = Inr s"
  shows "length (test_negs s) = length (original_users df) \<and>
         rng s = rng_before P (pool_of (length (original_items df)) s) (nat negatives)
                   (seed_state P seed) (length (original_users df)) \<and>
         (\<forall>u<length (original_users df).
            let pool = pool_of (length (original_items df)) s u;
                g = rng_before P (pool_of (length (original_items df)) s) (nat negatives)
                      (seed_state P seed) u;
                idx = fst (draws P (length pool) (nat negatives) g)
            in 0 \<le> negatives \<and>
               (negatives \<noteq> 0 \<longrightarrow> pool \<noteq> []) \<and>
               length (test_negs s ! u) = nat negatives \<and>
               test_negs s ! u = map (\<lambda>i. pool ! i) idx \<and>
               sorted pool \<and> distinct pool \<and>
               set pool = {0..<length (original_items df)} - set (user_to_items s u) \<and>
               (\<forall>j<nat negatives.
                  idx ! j = fst (randint P ((after_draw P (length pool) ^^ j) g) (length pool))) \<and>
               rng_before P (pool_of (length (original_items df)) s) (nat negatives)
                 (seed_state P seed) (Suc u) = (after_draw P (length pool) ^^ nat negatives) g \<and>
               (randint_ok P \<longrightarrow> set idx \<subseteq> {0..<length pool}) \<and>
               bij_betw (map (\<lambda>i. pool ! i))
                 {idx. length idx = nat negatives \<and> set idx \<subseteq> {0..<length pool}}
                 {row. length row = nat negatives \<and> set row \<subseteq> set pool})"
proof -
  note d = main_split_InrD [OF assms(1,3)]
  let ?n = "length (original_users df)" and ?ni = "length (original_items df)"
  let ?pool = "\<lambda>u. candidates P ?ni (butlast (history P df u))"
  let ?g = "rng_before P (pool_of ?ni s) (nat negatives) (seed_state P seed)"
  have pool: "pool_of ?ni s v = ?pool v" if "v < ?n" for v
    using that by (simp add: pool_of_def d(1) final_state_simps candidates_eq [OF assms(2)])
  have rb: "rng_before P (pool_of ?ni s) k g u = rng_before P ?pool k g u" if "u \<le> ?n" for u k g
    by (rule rng_before_cong) (use that pool in simp)
  have 1: "length (test_negs s) = ?n" by (simp add: d(1) final_state_simps)
  have 2: "rng s = ?g ?n"
    by (simp add: rb) (simp add: d(1) final_state_simps)
  have 3: "let pool = pool_of ?ni s u; g = ?g u;
                idx = fst (draws P (length pool) (nat negatives) g)
            in 0 \<le> negatives \<and>
               (negatives \<noteq> 0 \<longrightarrow> pool \<noteq> []) \<and>
               length (test_negs s ! u) = nat negatives \<and>
               test_negs s ! u = map (\<lambda>i. pool ! i) idx \<and>
               sorted pool \<and> distinct pool \<and>
               set pool = {0..<?ni} - set (user_to_items s u) \<and>
               (\<forall>j<nat negatives.
                  idx ! j = fst (randint P ((after_draw P (length pool) ^^ j) g) (length pool))) \<and>
               ?g (Suc u) = (after_draw P (length pool) ^^ nat negatives) g \<and>
               (randint_ok P \<longrightarrow> set idx \<subseteq> {0..<length pool}) \<and>
               bij_betw (map (\<lambda>i. pool ! i))
                 {idx. length idx = nat negatives \<and> set idx \<subseteq> {0..<length pool}}
                 {row. length row = nat negatives \<and> set row \<subseteq> set pool}"
    if u: "u < ?n" for u
  proof -
    let ?p = "pool_of ?ni s u"
    let ?idx = "fst (draws P (length ?p) (nat negatives) (?g u))"
    from d(3) u have "step_ok P ?ni negatives (history P df) u" by (simp add: sampler_ok_def)
    then have a: "0 \<le> negatives" "negatives \<noteq> 0 \<longrightarrow> ?p \<noteq> []"
      by (auto simp: step_ok_def pool [OF u])
    have n: "test_negs s ! u = negs_of P ?pool (nat negatives) (seed_state P seed) u"
      using u by (simp add: d(1) final_state_simps)
    have "negs_of P ?pool (nat negatives) (seed_state P seed) u =
          negs_of P (pool_of ?ni s) (nat negatives) (seed_state P seed) u"
      by (rule negs_of_cong) (use u pool in simp)
    with n have b: "test_negs s ! u = map (\<lambda>i. ?p ! i) ?idx"
      by (simp add: negs_of_def)
    then have c: "length (test_negs s ! u) = nat negatives" by (simp add: length_draws)
    have e: "sorted ?p" "distinct ?p" "set ?p = {0..<?ni} - set (user_to_items s u)"
      by (simp_all add: pool_of_def)
    have f: "\<forall>j<nat negatives.
               ?idx ! j = fst (randint P ((after_draw P (length ?p) ^^ j) (?g u)) (length ?p))"
      by (simp add: nth_draws)
    have h: "?g (Suc u) = (after_draw P (length ?p) ^^ nat negatives) (?g u)"
      by (simp add: snd_draws)
    have i: "set ?idx \<subseteq> {0..<length ?p}" if r: "randint_ok P"
    proof (cases "?p = []")
      case True
      with a(2) have "nat negatives = 0" by auto
      then show ?thesis by simp
    next
      case False
      then have "0 < length ?p" by simp
      from draws_bound [OF r this] show ?thesis by auto
    qed
    note j = lookup_bij [OF e(2), of "nat negatives"]
    from a b c e f h i j show ?thesis unfolding Let_def by blast
  qed
  from 1 2 3 show ?thesis by blast
qed

theorem sampling_order_witness:
  "\<exists>s. main_split demo 0 toy 1 3 = Inr s \<and> test_negs s = [[19, 21, 20], [0, 1, 1]] \<and>
       rng s = 15 \<and> length (test_negs s) = length (original_users toy) \<and>
       rng s = rng_before demo (pool_of (length (original_items toy)) s) (nat 3) (seed_state demo 1)
                 (length (original_users toy))"
proof -
  have "case main_split demo 0 toy 1 3 of
          Inr s \<Rightarrow> test_negs s = [[19, 21, 20], [0, 1, 1]] \<and> rng s = 15
        | Inl _ \<Rightarrow> False"
    by code_simp
  then obtain s where s: "main_split demo 0 toy 1 3 = Inr s"
    "test_negs s = [[19, 21, 20], [0, 1, 1]]" "rng s = 15"
    by (auto split: sum.splits)
  note t = sampling_order [OF sort_ok_demo items_iter_ok_demo s(1)]
  have a: "length (test_negs s) = length (original_users toy)"
    by (rule conjunct1 [OF t])
  have b: "rng s = rng_before demo (pool_of (length (original_items toy)) s) (nat 3) (seed_state demo 1)
                 (length (original_users toy))"
    by (rule conjunct1 [OF conjunct2 [OF t]])
  from s a b show ?thesis by blast
qed

section \<open>Determinism\<close>

text \<open>
  C4. The contents of the three files are a function of the table, the seed and the
  number of negatives: two runs on the same platform (the same sort, the same generator
  and the same iteration order of the set of pairs) give the same result, error or files,
  whatever state the global generator had when each process started and in whatever order
  each run iterated the sets of candidate items.
\<close>

theorem main_deterministic:
  assumes "items_iter_ok P" and "items_iter_ok P'"
    and "sort_by_timestamp P' = sort_by_timestamp P"
    and "seed_state P' = seed_state P"
    and "randint P' = randint P"
    and "list_of_pairs P' = list_of_pairs P"
  shows "main P' g0' df seed negatives = main P g0 df seed negatives"
proof -
  have 1: "np_random_seed P' seed g0' = np_random_seed P seed g0"
    by (simp add: np_random_seed_def assms(4))
  have 2: "sorted_table P' df = sorted_table P df"
    by (simp add: sorted_table_def assms(3) split: sum.splits)
  have 3: "main_split P' g0' df seed negatives = main_split P g0 df seed negatives"
    unfolding main_split_def 1 2 split_loop_cong [OF assms(1,2,5)] ..
  have 4: "write_files P' s = write_files P s" for s
    by (simp add: write_files_def train_table_def assms(6))
  show ?thesis unfolding main_def 3 4 ..
qed

theorem main_deterministic_witness:
  "main (demo\<lparr>list_of_items := sorted_list_of_set\<rparr>) 17 toy 1 3 = main demo 0 toy 1 3 \<and>
   (case main demo 0 toy 1 3 of
      Inr out \<Rightarrow> test_ratings_csv out = to_csv [[0, 19, 1], [1, 21, 1]] \<and>
                 test_negative_csv out = to_csv [[19, 21, 20], [0, 1, 1]]
    | Inl _ \<Rightarrow> False)"
proof -
  have i: "items_iter_ok (demo\<lparr>list_of_items := sorted_list_of_set\<rparr>)"
    by (simp add: items_iter_ok_def)
  have "main (demo\<lparr>list_of_items := sorted_list_of_set\<rparr>) 17 toy 1 3 = main demo 0 toy 1 3"
    by (rule main_deterministic [OF items_iter_ok_demo i]) simp_all
  moreover have "case main demo 0 toy 1 3 of
      Inr out \<Rightarrow> test_ratings_csv out = to_csv [[0, 19, 1], [1, 21, 1]] \<and>
                 test_negative_csv out = to_csv [[19, 21, 20], [0, 1, 1]]
    | Inl _ \<Rightarrow> False"
    by code_simp
  ultimately show ?thesis by blast
qed

section \<open>The renumbering is dense\<close>

text \<open>
  C5. When the filtered table is not empty, renumbering succeeds, the greatest user index
  is the number of distinct users minus one and the greatest item index is the number of
  distinct items minus one; the indices in each column are exactly \<open>0, \<dots>, n - 1\<close>, and
  neither assertion of lines 74-75 fails.
\<close>

theorem remap_dense:
  assumes "filter_min_ratings df \<noteq> []"
  shows "\<exists>df2. remap df = Inr df2 \<and>
           series_max (map user_id df2) = Some (length (original_users df) - 1) \<and>
           series_max (map item_id df2) = Some (length (original_items df) - 1) \<and>
           0 < length (original_users df) \<and> 0 < length (original_items df) \<and>
           set (map user_id df2) = {0..<length (original_users df)} \<and>
           set (map item_id df2) = {0..<length (original_items df)} \<and>
           assert_dense (map user_id df2) (original_users df) \<and>
           assert_dense (map item_id df2) (original_items df) \<and>
           remap_checked df = Inr df2"
proof -
  from assms have ne: "map user_id (remapped df) \<noteq> []" "map item_id (remapped df) \<noteq> []"
    by (simp_all add: remapped_Nil_iff)
  note u = series_max_dense [OF set_user_col_remapped ne(1)]
  note i = series_max_dense [OF set_item_col_remapped ne(2)]
  have "assert_dense (map user_id (remapped df)) (original_users df)"
    by (rule assert_dense_ok [OF set_user_col_remapped ne(1)])
  moreover have "assert_dense (map item_id (remapped df)) (original_items df)"
    by (rule assert_dense_ok [OF set_item_col_remapped ne(2)])
  ultimately show ?thesis
    using u i set_user_col_remapped [of df] set_item_col_remapped [of df]
      remap_eq [of df] remap_checked_nonempty [OF assms]
    by blast
qed

theorem remap_dense_witness:
  "filter_min_ratings toy \<noteq> [] \<and>
   (\<exists>df2. remap toy = Inr df2 \<and> series_max (map user_id df2) = Some 1 \<and>
      series_max (map item_id df2) = Some 21 \<and> remap_checked toy = Inr df2)"
proof -
  have ne: "filter_min_ratings toy \<noteq> []" by code_simp
  have n: "length (original_users toy) = 2" "length (original_items toy) = 22" by code_simp+
  from remap_dense [OF ne] ne show ?thesis unfolding n by auto
qed

section \<open>The sort and the order of ties\<close>

text \<open>
  C6, as the script has it. The script sorts with the default kind of
  \<^verbatim>\<open>sort_values\<close>, of which pandas documents only that the result is ascending:
  the table handed to the splitter is a permutation of the renumbered table, ascending by
  timestamp, and the item popped for a user is the item of one of the user's rows with the
  greatest timestamp. When the sort keeps rows of equal timestamp in their original order,
  the table is the stably sorted one and the popped item is the one of the latest original
  row among them; the default sort does not keep that order, and then the popped item can
  be that of another of the tied rows.
\<close>

theorem popped_item_latest:
  assumes "sort_ok P" and "main_split P g0 df seed negatives = Inr s"
  shows "\<exists>df2 df3. remap df = Inr df2 \<and> sorted_table P df = Inr df3 \<and>
           sorted (map timestamp df3) \<and> mset df3 = mset df2 \<and>
           (\<forall>u<length (original_users df).
              \<exists>r\<in>set df2. user_id r = u \<and> test_ratings s ! u = (u, item_id r) \<and>
                (\<forall>r'\<in>set df2. user_id r' = u \<longrightarrow> timestamp r' \<le> timestamp r)) \<and>
           (sort_stable P \<longrightarrow>
              df3 = sort_key timestamp df2 \<and>
              (\<forall>u<length (original_users df).
                 test_ratings s ! u = (u, item_id (latest_row df2 u))))"
proof -
  note d = main_split_InrD [OF assms]
  let ?n = "length (original_users df)"
  have 1: "remap df = Inr (remapped df)" by (rule remap_eq)
  have 2: "sorted_table P df = Inr (table P df)" by (rule sorted_table_eq [OF d(2)])
  have 3: "sorted (map timestamp (table P df))" using assms(1) by (simp add: table_def sort_ok_def)
  have 4: "mset (table P df) = mset (remapped df)" by (rule mset_table [OF assms(1)])
  have t: "test_ratings s ! u = (u, item_id (last (user_rows P df u)))" if "u < ?n" for u
    using that user_rows_nonempty [OF assms(1) that]
    by (simp add: d(1) final_state_simps last_history)
  have 5: "\<exists>r\<in>set (remapped df). user_id r = u \<and> test_ratings s ! u = (u, item_id r) \<and>
                (\<forall>r'\<in>set (remapped df). user_id r' = u \<longrightarrow> timestamp r' \<le> timestamp r)"
    if u: "u < ?n" for u
  proof -
    let ?r = "last (user_rows P df u)"
    have ne: "user_rows P df u \<noteq> []" by (rule user_rows_nonempty [OF assms(1) u])
    have a: "?r \<in> set (remapped df)" "user_id ?r = u"
      using last_user_rows_in [OF ne] by (simp_all add: set_table [OF assms(1)])
    have b: "timestamp r' \<le> timestamp ?r" if "r' \<in> set (remapped df)" "user_id r' = u" for r'
    proof -
      from that have "r' \<in> set (user_rows P df u)"
        by (simp add: user_rows_def set_table [OF assms(1)])
      then show ?thesis by (rule sorted_le_last [OF sorted_user_rows [OF assms(1)]])
    qed
    from a b t [OF u] show ?thesis by blast
  qed
  have 6: "table P df = sort_key timestamp (remapped df) \<and>
           (\<forall>u<?n. test_ratings s ! u = (u, item_id (latest_row (remapped df) u)))"
    if st: "sort_stable P"
    using t by (simp add: table_def stable_sort_key [OF assms(1) st]
        last_user_rows_stable [OF assms(1) st])
  from 1 2 3 4 5 6 show ?thesis by blast
qed

theorem popped_item_latest_witness:
  "\<exists>s. main_split demo 0 toy 1 3 = Inr s \<and> test_ratings s ! 1 = (1, 21) \<and>
       (\<exists>df2. remap toy = Inr df2 \<and> test_ratings s ! 1 = (1, item_id (latest_row df2 1)))"
proof -
  have "case main_split demo 0 toy 1 3 of
          Inr s \<Rightarrow> test_ratings s ! 1 = (1, 21) | Inl _ \<Rightarrow> False"
    by code_simp
  then obtain s where s: "main_split demo 0 toy 1 3 = Inr s" "test_ratings s ! 1 = (1, 21)"
    by (auto split: sum.splits)
  have u: "1 < length (original_users toy)" by code_simp
  from popped_item_latest [OF sort_ok_demo s(1)] sort_stable_demo u
  have "\<exists>df2. remap toy = Inr df2 \<and> test_ratings s ! 1 = (1, item_id (latest_row df2 1))"
    by blast
  with s show ?thesis by blast
qed

text \<open>
  In \<open>toy\<close> all twenty rows of user 9 (index 1) carry timestamp 7, and the latest of them
  in the original order has item index 21. Under the default sort of the library the table
  is ascending by timestamp, and the item popped for the user is index 4, the item of the
  third of these rows.
\<close>

theorem popped_item_not_latest:
  "(case remap toy of
      Inr df2 \<Rightarrow> item_id (latest_row df2 1) = 21 \<and>
                 map timestamp (filter (\<lambda>r. user_id r = 1) df2) = replicate 20 7 \<and>
                 argsort_quicksort (map timestamp df2) \<noteq> None \<and>
                 map timestamp (sort_values_quicksort df2) = sort (map timestamp df2)
    | Inl _ \<Rightarrow> False) \<and>
   (case main_split demo_numpy 0 toy 1 3 of
      Inr s \<Rightarrow> test_ratings s ! 1 = (1, 4)
    | Inl _ \<Rightarrow> False)"
proof -
  have 1: "case remap toy of
      Inr df2 \<Rightarrow> item_id (latest_row df2 1) = 21 \<and>
                 map timestamp (filter (\<lambda>r. user_id r = 1) df2) = replicate 20 7 \<and>
                 argsort_quicksort (map timestamp df2) \<noteq> None \<and>
                 map timestamp (sort_values_quicksort df2) = sort (map timestamp df2)
    | Inl _ \<Rightarrow> False"
    by code_simp
  have 2: "case main_split demo_numpy 0 toy 1 3 of
      Inr s \<Rightarrow> test_ratings s ! 1 = (1, 4)
    | Inl _ \<Rightarrow> False"
    by code_simp
  from 1 2 show ?thesis by blast
qed

section \<open>An empty filtered table\<close>

text \<open>
  C7. When no row survives the filter, the first assertion after the renumbering fails:
  the run ends with AssertionError whenever the seed is one numpy accepts, and in no case
  does it return files.
\<close>

theorem empty_table_fails:
  assumes "filter_min_ratings df = []"
  shows "remap_checked df = Inl AssertionError \<and>
         (0 \<le> seed \<and> seed < 2 ^ 32 \<longrightarrow> main P g0 df seed negatives = Inl AssertionError) \<and>
         (\<forall>out. main P g0 df seed negatives \<noteq> Inr out)"
  using remap_checked_empty [OF assms]
  by (auto simp: main_def main_split_def np_random_seed_def sorted_table_def)

theorem empty_table_fails_witness:
  "filter_min_ratings sparse = [] \<and> remap_checked sparse = Inl AssertionError \<and>
   main demo 0 sparse 1 3 = Inl AssertionError"
proof -
  have e: "filter_min_ratings sparse = []" by code_simp
  from empty_table_fails [OF e, of 1 demo 0 3] e show ?thesis by simp
qed

section \<open>The users in the output\<close>

text \<open>
  C8. The users that get an index are exactly the raw users with at least
  \<open>MIN_RATINGS\<close> rows in the input; a user with fewer has none. When the run completes,
  every row of the training table and of the test table starts with a user index below the
  number of such users, the index of a raw user with at least \<open>MIN_RATINGS\<close> rows; the
  test table has one row for each index in turn, and the table of negatives has as many
  rows as there are indices.
\<close>

theorem sparse_users_dropped:
  assumes "sort_ok P" and "pairs_iter_ok P"
    and "main_split P g0 df seed negatives = Inr s"
  shows "set (original_users df) = {v. MIN_RATINGS \<le> group_len df v} \<and>
         (\<forall>v. group_len df v < MIN_RATINGS \<longrightarrow>
              (\<forall>u<length (original_users df). original_users df ! u \<noteq> v)) \<and>
         length (test_negs s) = length (original_users df) \<and>
         map fst (test_ratings s) = [0..<length (original_users df)] \<and>
         (\<forall>row\<in>set (train_table P s) \<union> set (test_table s).
            \<exists>u i. row = [u, i, 1] \<and> u < length (original_users df) \<and>
                  MIN_RATINGS \<le> group_len df (original_users df ! u))"
proof -
  note d = main_split_InrD [OF assms(1,3)]
  let ?n = "length (original_users df)"
  have 1: "set (original_users df) = {v. MIN_RATINGS \<le> group_len df v}"
    by (auto simp: original_users_iff)
  have 2: "original_users df ! u \<noteq> v" if "group_len df v < MIN_RATINGS" "u < ?n" for u v
  proof
    assume "original_users df ! u = v"
    with that(2) have "v \<in> set (original_users df)" by auto
    with that(1) show False by (simp add: original_users_iff)
  qed
  have 3: "length (test_negs s) = ?n" by (simp add: d(1) final_state_simps)
  have 4: "map fst (test_ratings s) = [0..<?n]" by (simp add: d(1) final_state_simps o_def)
  have ok: "MIN_RATINGS \<le> group_len df (original_users df ! u)" if "u < ?n" for u
  proof -
    from that have "original_users df ! u \<in> set (original_users df)" by simp
    then show ?thesis by (simp add: original_users_iff)
  qed
  have fin: "finite (all_ratings s)"
    using all_ratings_final_subset [of P df seed negatives] finite_rating_pairs
    unfolding d(1) by (rule finite_subset)
  with assms(2) have l: "set (list_of_pairs P (all_ratings s)) = all_ratings s"
    by (simp add: pairs_iter_ok_def)
  have 5: "\<exists>u i. row = [u, i, 1] \<and> u < ?n \<and> MIN_RATINGS \<le> group_len df (original_users df ! u)"
    if "row \<in> set (train_table P s) \<union> set (test_table s)" for row
    using that
  proof
    assume "row \<in> set (train_table P s)"
    then obtain u i where r: "row = [u, i, 1]" "(u, i) \<in> all_ratings s"
      by (auto simp: train_table_def with_fake_rating_def l)
    from r(2) have "(u, i) \<in> rating_pairs (table P df)"
      using all_ratings_final_subset [of P df seed negatives] by (auto simp: d(1))
    from rating_pairs_user(1) [OF assms(1) this] r(1) ok show ?thesis by blast
  next
    assume "row \<in> set (test_table s)"
    then obtain u where "row = [u, last (history P df u), 1]" "u < ?n"
      by (auto simp: test_table_def with_fake_rating_def d(1) final_state_simps)
    with ok show ?thesis by blast
  qed
  from 1 2 3 4 5 show ?thesis by blast
qed

theorem sparse_users_dropped_witness:
  "\<exists>s. main_split demo 0 toy 1 3 = Inr s \<and> group_len toy 5 < MIN_RATINGS \<and>
       original_users toy = [7, 9] \<and>
       map fst (test_ratings s) = [0..<length (original_users toy)] \<and>
       length (test_negs s) = length (original_users toy) \<and>
       original_users toy ! 0 \<noteq> 5 \<and> original_users toy ! 1 \<noteq> 5"
proof -
  have "case main_split demo 0 toy 1 3 of Inr s \<Rightarrow> True | Inl _ \<Rightarrow> False"
    by code_simp
  then obtain s where s: "main_split demo 0 toy 1 3 = Inr s"
    by (auto split: sum.splits)
  have g: "group_len toy 5 < MIN_RATINGS" by code_simp
  have U: "original_users toy = [7, 9]" by code_simp
  note t = sparse_users_dropped [OF sort_ok_demo pairs_iter_ok_demo s]
  from t have a: "map fst (test_ratings s) = [0..<length (original_users toy)]"
    "length (test_negs s) = length (original_users toy)" by blast+
  from t g have "\<forall>u<length (original_users toy). original_users toy ! u \<noteq> 5" by blast
  then have "original_users toy ! 0 \<noteq> 5" "original_users toy ! 1 \<noteq> 5"
    by (simp_all add: U)
  with s g U a show ?thesis by blast
qed

section \<open>The files\<close>

text \<open>
  C9, as the script has it. When the run returns files, each is the rendering of a table
  of integers with one line per row, a tab between the fields of a row and nothing before
  the first row. Read back (cut at the newlines and the tabs, the fields read as decimal
  numbers) the test file gives, for each user index in turn, the row of the index, the
  held-out item and 1; the file of negatives gives one row per user index, made of exactly
  the \<open>negatives\<close> sampled item indices and nothing else; the training file gives one row
  \<open>(u, i, 1)\<close> for each pair of the training set, each pair once. The numbers of newlines
  and of tabs in the three files are the ones these shapes give. The rows of the training
  file are the distinct renumbered pairs less one per user; they are as many as the items
  left in the users' histories when no (user, item) pair occurs twice in the input.
\<close>

theorem files_written:
  assumes "sort_ok P" and "pairs_iter_ok P"
    and "main P g0 df seed negatives = Inr out"
  shows "\<exists>s train. main_split P g0 df seed negatives = Inr s \<and>
           set train = all_ratings s \<and> distinct train \<and>
           train_ratings_csv out = to_csv (map (\<lambda>(u, i). [u, i, 1]) train) \<and>
           test_ratings_csv out =
             to_csv (map (\<lambda>u. [u, snd (test_ratings s ! u), 1]) [0..<length (original_users df)]) \<and>
           test_negative_csv out = to_csv (test_negs s) \<and>
           parse_csv (train_ratings_csv out) = map (\<lambda>(u, i). [u, i, 1]) train \<and>
           parse_csv (test_ratings_csv out) =
             map (\<lambda>u. [u, snd (test_ratings s ! u), 1]) [0..<length (original_users df)] \<and>
           parse_csv (test_negative_csv out) = test_negs s \<and>
           length (test_negs s) = length (original_users df) \<and>
           (\<forall>row\<in>set (test_negs s). length row = nat negatives) \<and>
           count_list (train_ratings_csv out) (CHR 0x0A) = card (all_ratings s) \<and>
           count_list (test_ratings_csv out) (CHR 0x0A) = length (original_users df) \<and>
           count_list (test_negative_csv out) (CHR 0x0A) = length (original_users df) \<and>
           count_list (train_ratings_csv out) (CHR 0x09) = card (all_ratings s) * 2 \<and>
           count_list (test_ratings_csv out) (CHR 0x09) = length (original_users df) * 2 \<and>
           count_list (test_negative_csv out) (CHR 0x09) =
             length (original_users df) * (nat negatives - 1) \<and>
           (\<exists>df2. remap df = Inr df2 \<and>
              length train + length (original_users df) = card (rating_pairs df2)) \<and>
           (distinct (map (\<lambda>r. (user_id r, item_id r)) df) \<longrightarrow>
              length train =
                sum_list (map (\<lambda>u. length (user_to_items s u)) [0..<length (original_users df)]) \<and>
              length train + length (original_users df) = length (filter_min_ratings df))"
proof -
  from assms(3) obtain s where s: "main_split P g0 df seed negatives = Inr s"
    and out: "out = write_files P s"
    by (auto simp: main_def split: sum.splits)
  note d = main_split_InrD [OF assms(1) s]
  let ?n = "length (original_users df)"
  let ?train = "list_of_pairs P (all_ratings s)"
  let ?test = "map (\<lambda>u. [u, snd (test_ratings s ! u), 1]) [0..<?n]"
  have fin: "finite (all_ratings s)"
    using all_ratings_final_subset [of P df seed negatives] finite_rating_pairs
    unfolding d(1) by (rule finite_subset)
  with assms(2) have l: "set ?train = all_ratings s" "distinct ?train"
    by (simp_all add: pairs_iter_ok_def)
  have card: "card (all_ratings s) = length ?train"
    using distinct_card [OF l(2)] by (simp add: l(1))
  have 1: "train_ratings_csv out = to_csv (map (\<lambda>(u, i). [u, i, 1]) ?train)"
    by (simp add: out write_files_def train_table_def with_fake_rating_def)
  have "test_table s = ?test"
    by (simp add: test_table_def with_fake_rating_def d(1) final_state_simps)
  then have 2: "test_ratings_csv out = to_csv ?test" by (simp add: out write_files_def)
  have 3: "test_negative_csv out = to_csv (test_negs s)" by (simp add: out write_files_def)
  have p: "parse_csv (train_ratings_csv out) = map (\<lambda>(u, i). [u, i, 1]) ?train"
    "parse_csv (test_ratings_csv out) = ?test"
    "parse_csv (test_negative_csv out) = test_negs s"
    by (simp_all only: 1 2 3 parse_to_csv)
  have 4: "length (test_negs s) = ?n" by (simp add: d(1) final_state_simps)
  have 5: "\<forall>row\<in>set (test_negs s). length row = nat negatives"
    by (auto simp: d(1) final_state_simps length_negs_of)
  have 6: "count_list (train_ratings_csv out) (CHR 0x0A) = card (all_ratings s)"
    "count_list (test_ratings_csv out) (CHR 0x0A) = ?n"
    "count_list (test_negative_csv out) (CHR 0x0A) = ?n"
    by (simp_all add: 1 2 3 4 card count_to_csv(1))
  have "sum_list (map (\<lambda>r. length r - 1) (map (\<lambda>(u, i). [u, i, 1]) ?train)) = length ?train * 2"
    by (subst sum_list_const [where c = 2]) auto
  then have 7: "count_list (train_ratings_csv out) (CHR 0x09) = card (all_ratings s) * 2"
    by (simp only: 1 count_to_csv(2) card)
  have "sum_list (map (\<lambda>r. length r - 1) ?test) = length ?test * 2"
    by (subst sum_list_const [where c = 2]) auto
  then have 8: "count_list (test_ratings_csv out) (CHR 0x09) = ?n * 2"
    by (simp only: 2 count_to_csv(2)) simp
  have "sum_list (map (\<lambda>r. length r - 1) (test_negs s)) = length (test_negs s) * (nat negatives - 1)"
    by (rule sum_list_const) (use 5 in simp)
  then have 9: "count_list (test_negative_csv out) (CHR 0x09) = ?n * (nat negatives - 1)"
    by (simp only: 3 count_to_csv(2) 4)
  have ct: "length ?train + ?n = card (rating_pairs (remapped df))"
    using card_train [OF assms(1), of df seed negatives] card unfolding d(1) by simp
  then have 10: "\<exists>df2. remap df = Inr df2 \<and> length ?train + ?n = card (rating_pairs df2)"
    using remap_eq [of df] by blast
  have 11: "length ?train = sum_list (map (\<lambda>u. length (user_to_items s u)) [0..<?n]) \<and>
            length ?train + ?n = length (filter_min_ratings df)"
    if dist: "distinct (map (\<lambda>r. (user_id r, item_id r)) df)"
  proof -
    have a: "length ?train + ?n = length (filter_min_ratings df)"
      using ct by (simp add: card_pairs_distinct [OF dist])
    have e: "map (\<lambda>u. length (user_to_items s u)) [0..<?n] =
          map (\<lambda>u. length (butlast (history P df u))) [0..<?n]"
      by (rule map_cong) (simp_all add: d(1) final_state_simps)
    have "sum_list (map (\<lambda>u. length (user_to_items s u)) [0..<?n]) + ?n =
               length (filter_min_ratings df)"
      unfolding e by (rule history_total [OF assms(1)])
    with a show ?thesis by simp
  qed
  from s l 1 2 3 p 4 5 6 7 8 9 10 11 show ?thesis by blast
qed

theorem files_written_witness:
  "\<exists>out. main demo 0 toy 1 3 = Inr out \<and>
       test_ratings_csv out =
         [CHR ''0'', CHR 0x09, CHR ''1'', CHR ''9'', CHR 0x09, CHR ''1'', CHR 0x0A,
          CHR ''1'', CHR 0x09, CHR ''2'', CHR ''1'', CHR 0x09, CHR ''1'', CHR 0x0A] \<and>
       test_negative_csv out =
         [CHR ''1'', CHR ''9'', CHR 0x09, CHR ''2'', CHR ''1'', CHR 0x09, CHR ''2'', CHR ''0'', CHR 0x0A,
          CHR ''0'', CHR 0x09, CHR ''1'', CHR 0x09, CHR ''1'', CHR 0x0A] \<and>
       take 12 (train_ratings_csv out) =
         [CHR ''0'', CHR 0x09, CHR ''0'', CHR 0x09, CHR ''1'', CHR 0x0A,
          CHR ''0'', CHR 0x09, CHR ''1'', CHR 0x09, CHR ''1'', CHR 0x0A] \<and>
       length (parse_csv (train_ratings_csv out)) = 38 \<and>
       count_list (test_negative_csv out) (CHR 0x0A) = length (original_users toy) \<and>
       count_list (test_negative_csv out) (CHR 0x09) = length (original_users toy) * (nat 3 - 1)"
proof -
  have "case main demo 0 toy 1 3 of
      Inr out \<Rightarrow>
        test_ratings_csv out =
         [CHR ''0'', CHR 0x09, CHR ''1'', CHR ''9'', CHR 0x09, CHR ''1'', CHR 0x0A,
          CHR ''1'', CHR 0x09, CHR ''2'', CHR ''1'', CHR 0x09, CHR ''1'', CHR 0x0A] \<and>
        test_negative_csv out =
         [CHR ''1'', CHR ''9'', CHR 0x09, CHR ''2'', CHR ''1'', CHR 0x09, CHR ''2'', CHR ''0'', CHR 0x0A,
          CHR ''0'', CHR 0x09, CHR ''1'', CHR 0x09, CHR ''1'', CHR 0x0A] \<and>
        take 12 (train_ratings_csv out) =
         [CHR ''0'', CHR 0x09, CHR ''0'', CHR 0x09, CHR ''1'', CHR 0x0A,
          CHR ''0'', CHR 0x09, CHR ''1'', CHR 0x09, CHR ''1'', CHR 0x0A] \<and>
        length (parse_csv (train_ratings_csv out)) = 38
    | Inl _ \<Rightarrow> False"
    by code_simp
  then obtain out where out: "main demo 0 toy 1 3 = Inr out"
    "test_ratings_csv out =
         [CHR ''0'', CHR 0x09, CHR ''1'', CHR ''9'', CHR 0x09, CHR ''1'', CHR 0x0A,
          CHR ''1'', CHR 0x09, CHR ''2'', CHR ''1'', CHR 0x09, CHR ''1'', CHR 0x0A]"
    "test_negative_csv out =
         [CHR ''1'', CHR ''9'', CHR 0x09, CHR ''2'', CHR ''1'', CHR 0x09, CHR ''2'', CHR ''0'', CHR 0x0A,
          CHR ''0'', CHR 0x09, CHR ''1'', CHR 0x09, CHR ''1'', CHR 0x0A]"
    "take 12 (train_ratings_csv out) =
         [CHR ''0'', CHR 0x09, CHR ''0'', CHR 0x09, CHR ''1'', CHR 0x0A,
          CHR ''0'', CHR 0x09, CHR ''1'', CHR 0x09, CHR ''1'', CHR 0x0A]"
    "length (parse_csv (train_ratings_csv out)) = 38"
    by (auto split: sum.splits)
  from files_written [OF sort_ok_demo pairs_iter_ok_demo out(1)]
  have "count_list (test_negative_csv out) (CHR 0x0A) = length (original_users toy)"
    "count_list (test_negative_csv out) (CHR 0x09) = length (original_users toy) * (nat 3 - 1)"
    by blast+
  with out show ?thesis by blast
qed

text \<open>
  In \<open>toy_dup\<close> user 7 (index 0) rates item 0 twice. After the split the histories of the
  two users hold 38 items, among them item 0 for user 0, but the pair (0, 0) was removed
  with the test pair: the training file has 37 rows and none for that rating.
\<close>

theorem training_rows_are_pairs:
  "(case main_split demo 0 toy_dup 1 3 of
      Inr s \<Rightarrow> 0 \<in> set (user_to_items s 0) \<and> (0, 0) \<notin> all_ratings s \<and>
               length (user_to_items s 0) + length (user_to_items s 1) = 38 \<and>
               card (all_ratings s) = 37
    | Inl _ \<Rightarrow> False) \<and>
   (case main demo 0 toy_dup 1 3 of
      Inr out \<Rightarrow> length (parse_csv (train_ratings_csv out)) = 37 \<and>
                 [0, 0, 1] \<notin> set (parse_csv (train_ratings_csv out))
    | Inl _ \<Rightarrow> False)"
proof -
  have 1: "case main_split demo 0 toy_dup 1 3 of
      Inr s \<Rightarrow> 0 \<in> set (user_to_items s 0) \<and> (0, 0) \<notin> all_ratings s \<and>
               length (user_to_items s 0) + length (user_to_items s 1) = 38 \<and>
               card (all_ratings s) = 37
    | Inl _ \<Rightarrow> False"
    by code_simp
  have 2: "case main demo 0 toy_dup 1 3 of
      Inr out \<Rightarrow> length (parse_csv (train_ratings_csv out)) = 37 \<and>
                 [0, 0, 1] \<notin> set (parse_csv (train_ratings_csv out))
    | Inl _ \<Rightarrow> False"
    by code_simp
  from 1 2 show ?thesis by blast
qed

section \<open>The loop never pops an empty list nor removes an absent pair\<close>

text \<open>
  C10, as the script has it. Let the renumbering and its assertions pass. Then, whenever
  the loop has run for the users before \<open>k\<close> without an exception, \<open>user_to_items[k]\<close>
  holds at least \<open>MIN_RATINGS\<close> items and the pair of \<open>k\<close> and its last item is still
  in \<open>all_ratings\<close>: the pop and the remove never raise. The loop as a whole ends
  without exception exactly when no sampling call raises, that is when the number of
  negatives is not negative and, unless it is zero, no user's candidate pool is empty;
  otherwise it ends with ValueError.
\<close>

theorem split_loop_safe:
  assumes "sort_ok P" and "sorted_table P df = Inr df3"
  shows "(\<forall>k<length (original_users df). \<forall>s'.
            split_loop P (length (original_items df)) negatives [0..<k]
              \<lparr>user_to_items = collect_items df3, all_ratings = rating_pairs df3,
               test_ratings = [], test_negs = [], rng = g\<rparr> = Inr s' \<longrightarrow>
            MIN_RATINGS \<le> length (user_to_items s' k) \<and>
            (k, last (user_to_items s' k)) \<in> all_ratings s') \<and>
         main_split P g0 df seed negatives \<noteq> Inl IndexError \<and>
         main_split P g0 df seed negatives \<noteq> Inl KeyError \<and>
         (if \<forall>u<length (original_users df).
               0 \<le> negatives \<and>
               (candidates P (length (original_items df)) (butlast (collect_items df3 u)) = []
                  \<longrightarrow> negatives = 0)
          then \<exists>s. split_loop P (length (original_items df)) negatives
                 [0..<length (original_users df)]
                 \<lparr>user_to_items = collect_items df3, all_ratings = rating_pairs df3,
                  test_ratings = [], test_negs = [], rng = g\<rparr> = Inr s
          else split_loop P (length (original_items df)) negatives
                 [0..<length (original_users df)]
                 \<lparr>user_to_items = collect_items df3, all_ratings = rating_pairs df3,
                  test_ratings = [], test_negs = [], rng = g\<rparr> = Inl ValueError)"
proof -
  note t = sorted_table_InrD [OF assms(2)]
  let ?n = "length (original_users df)" and ?ni = "length (original_items df)"
  let ?h = "history P df" and ?A = "rating_pairs (table P df)"
  let ?init = "\<lparr>user_to_items = ?h, all_ratings = ?A,
               test_ratings = [], test_negs = [], rng = g\<rparr>"
  have c: "collect_items df3 = ?h" by (simp add: t(2) collect_items_table)
  have pre: "?h u \<noteq> [] \<and> (u, last (?h u)) \<in> ?A" if "u < ?n" for u
    using split_pre [OF assms(1) that] by simp
  have 1: "MIN_RATINGS \<le> length (user_to_items s' k) \<and> (k, last (user_to_items s' k)) \<in> all_ratings s'"
    if k: "k < ?n" and run: "split_loop P ?ni negatives [0..<k] ?init = Inr s'" for k s'
  proof -
    have "?h u \<noteq> [] \<and> (u, last (?h u)) \<in> ?A" if "u < k" for u
      using pre that k by simp
    from split_loop_upt [of k ?h ?A P ?ni negatives g, OF this] run
    have s': "s' = split_after P ?ni negatives ?h ?A g k"
      by (auto split: if_splits)
    show ?thesis
      using split_pre [OF assms(1) k] by (auto simp: s' split_after_def)
  qed
  have 2: "main_split P g0 df seed negatives \<noteq> Inl IndexError"
          "main_split P g0 df seed negatives \<noteq> Inl KeyError"
    by (simp_all add: main_split_eq [OF assms(1)])
  have 3: "split_loop P ?ni negatives [0..<?n] ?init =
         (if \<forall>u<?n. step_ok P ?ni negatives ?h u
          then Inr (split_after P ?ni negatives ?h ?A g ?n)
          else Inl ValueError)"
    by (rule split_loop_upt) (use pre in blast)
  show ?thesis
    unfolding c t(2) [symmetric]
    using 1 2 3 unfolding t(2) step_ok_def by auto
qed

theorem split_loop_safe_witness:
  "\<exists>df3. sorted_table demo toy = Inr df3 \<and> collect_items df3 1 = [2..<22] \<and>
      MIN_RATINGS \<le> length (collect_items df3 1) \<and>
      (1, 21) \<in> rating_pairs df3 \<and>
      main_split demo 0 toy 1 3 \<noteq> Inl IndexError \<and>
      main_split demo 0 toy 1 3 \<noteq> Inl KeyError"
proof -
  have "case sorted_table demo toy of
          Inr df3 \<Rightarrow> collect_items df3 1 = [2..<22] \<and> (1, 21) \<in> rating_pairs df3
        | Inl _ \<Rightarrow> False"
    by code_simp
  then obtain df3 where s: "sorted_table demo toy = Inr df3"
    "collect_items df3 1 = [2..<22]" "(1, 21) \<in> rating_pairs df3"
    by (auto split: sum.splits)
  have "MIN_RATINGS \<le> length (collect_items df3 1)"
    unfolding s(2) MIN_RATINGS_def by simp
  with split_loop_safe [OF sort_ok_demo s(1), of 3 0 0 1] s show ?thesis by blast
qed

text \<open>
  In \<open>toy_one\<close> the only user rates item 0 twice and eighteen other items once. Every row
  survives the filter and both assertions pass; after the pop the history still holds all
  nineteen items, the candidate pool is empty and the sampling call raises.
\<close>

theorem split_loop_raises:
  "filter_min_ratings toy_one = toy_one \<and> \<not> isl (sorted_table demo toy_one) \<and>
   main_split demo 0 toy_one 1 3 = Inl ValueError"
proof -
  have 1: "filter_min_ratings toy_one = toy_one" by code_simp
  have 2: "\<not> isl (sorted_table demo toy_one)" by code_simp
  have "case main_split demo 0 toy_one 1 3 of Inl e \<Rightarrow> e = ValueError | Inr _ \<Rightarrow> False"
    by code_simp
  then have 3: "main_split demo 0 toy_one 1 3 = Inl ValueError"
    by (auto split: sum.splits)
  from 1 2 3 show ?thesis by blast
qed

end
